theory Spec2Isabelle
  imports Complex_Main "HOL-Library.AList"
begin

section \<open>Maze Clash: the server's maze, matchmaking and room logic\<close>

text \<open>
  A shallow embedding of \<^verbatim>\<open>src/server.js\<close>. Coordinates are \<open>int\<close> (the source adds
  negative offsets to them), array indices are checked against the array's length the way
  JavaScript does, and the two sources of non-determinism, \<^verbatim>\<open>Math.random()\<close> and
  \<^verbatim>\<open>Date.now()\<close>, are parameters.
\<close>

subsection \<open>Constants, errors and arrays\<close>

definition MAZE_LOGICAL :: nat where
  "MAZE_LOGICAL = 7"

definition TILE_EMPTY :: nat where
  "TILE_EMPTY = 0"

definition TILE_WALL :: nat where
  "TILE_WALL = 1"

text \<open>
  How a run of the source can end other than by returning:
  \<^item> \<open>RangeError\<close>: the call stack is exhausted (``Maximum call stack size exceeded'');
  \<^item> \<open>TypeError\<close>: a property of \<^verbatim>\<open>undefined\<close> is read or written;
  \<^item> \<open>Grown\<close>: a write \<^verbatim>\<open>a[y][x] = v\<close> with \<open>x\<close> outside the row \<^verbatim>\<open>a[y]\<close>. JavaScript
    would add a property to the row there; rows are lists of a fixed length in this
    model, so the model stops instead.
\<close>

datatype error = RangeError | TypeError | Grown

type_synonym grid = "nat list list"

text \<open>\<^verbatim>\<open>a[y][x]\<close>: \<open>None\<close> is \<^verbatim>\<open>undefined\<close> (a column the row does not have); reading a
  column of a row that does not exist throws.\<close>

definition at2 :: "'a list list \<Rightarrow> int \<Rightarrow> int \<Rightarrow> error + 'a option" where
  "at2 a y x =
     (if 0 \<le> y \<and> y < int (length a)
      then Inr (if 0 \<le> x \<and> x < int (length (a ! nat y))
                then Some (a ! nat y ! nat x) else None)
      else Inl TypeError)"

text \<open>\<^verbatim>\<open>a[y][x] = v\<close>.\<close>

definition put2 :: "'a list list \<Rightarrow> int \<Rightarrow> int \<Rightarrow> 'a \<Rightarrow> error + 'a list list" where
  "put2 a y x v =
     (if 0 \<le> y \<and> y < int (length a)
      then (if 0 \<le> x \<and> x < int (length (a ! nat y))
            then Inr (a[nat y := (a ! nat y)[nat x := v]])
            else Inl Grown)
      else Inl TypeError)"

text \<open>
  \<^verbatim>\<open>Math.floor(Math.random() * m)\<close>. \<^verbatim>\<open>Math.random()\<close> returns a number in \<open>[0, 1)\<close>, so
  the result is one of \<open>0, \<dots>, m - 1\<close> (and \<open>0\<close> when \<open>m = 0\<close>). The \<open>k\<close>-th call of
  \<^verbatim>\<open>Math.random()\<close> is the parameter \<open>rnd k\<close>, a natural number that is reduced modulo
  \<open>m\<close>: every value the source can draw is drawn by some \<open>rnd\<close>.
\<close>

definition random_below :: "(nat \<Rightarrow> nat) \<Rightarrow> nat \<Rightarrow> nat \<Rightarrow> nat" where
  "random_below rnd k m = (if m = 0 then 0 else rnd k mod m)"

subsection \<open>\<^verbatim>\<open>generateMaze\<close>\<close>

record maze =
  grid :: grid
  width :: int
  height :: int

text \<open>The variables \<^verbatim>\<open>carve\<close> closes over, and the number of \<^verbatim>\<open>Math.random()\<close> calls
  made so far.\<close>

record mstate =
  g :: grid
  visited :: "bool list list"
  draws :: nat

text \<open>The Fisher-Yates loop \<^verbatim>\<open>for (let i = dirs.length - 1; i > 0; i--)\<close> of \<^verbatim>\<open>carve\<close>,
  started at \<open>i\<close>; the swap reads both entries before it writes.\<close>

fun shuffle :: "(nat \<Rightarrow> nat) \<Rightarrow> nat \<Rightarrow> nat \<Rightarrow> 'a list \<Rightarrow> 'a list" where
  "shuffle rnd k 0 dirs = dirs"
| "shuffle rnd k (Suc i') dirs =
     (let i = Suc i'; j = random_below rnd k (i + 1)
      in shuffle rnd (Suc k) i' (dirs[i := dirs ! j, j := dirs ! i]))"

text \<open>
  \<^verbatim>\<open>carve(cx, cy)\<close> and its loop \<^verbatim>\<open>for (const [dx, dy] of dirs)\<close>. The first argument
  after the closure's \<open>w\<close> and \<open>h\<close> is the number of stack frames left: a call with none
  left is the source's stack overflow.
\<close>

fun carve :: "(nat \<Rightarrow> nat) \<Rightarrow> int \<Rightarrow> int \<Rightarrow> nat \<Rightarrow> int \<Rightarrow> int \<Rightarrow> mstate \<Rightarrow> error + mstate"
  and carve_dirs :: "(nat \<Rightarrow> nat) \<Rightarrow> int \<Rightarrow> int \<Rightarrow> nat \<Rightarrow> int \<Rightarrow> int \<Rightarrow> (int \<times> int) list
                      \<Rightarrow> mstate \<Rightarrow> error + mstate" where
  "carve rnd w h 0 cx cy s = Inl RangeError"
| "carve rnd w h (Suc frames) cx cy s =
     (case put2 (visited s) cy cx True of
        Inl e \<Rightarrow> Inl e
      | Inr v \<Rightarrow>
          (case put2 (g s) (cy * 2 + 1) (cx * 2 + 1) TILE_EMPTY of
             Inl e \<Rightarrow> Inl e
           | Inr g1 \<Rightarrow>
               carve_dirs rnd w h frames cx cy
                 (shuffle rnd (draws s) 3 [(1, 0), (-1, 0), (0, 1), (0, -1)])
                 (s\<lparr>visited := v, g := g1, draws := draws s + 3\<rparr>)))"
| "carve_dirs rnd w h frames cx cy [] s = Inr s"
| "carve_dirs rnd w h frames cx cy ((dx, dy) # ds) s =
     (let nx = cx + dx; ny = cy + dy in
      if nx \<ge> 0 \<and> nx < w \<and> ny \<ge> 0 \<and> ny < h
      then (case at2 (visited s) ny nx of
              Inl e \<Rightarrow> Inl e
            | Inr b \<Rightarrow>
                if b \<noteq> Some True
                then (case put2 (g s) (cy * 2 + 1 + dy) (cx * 2 + 1 + dx) TILE_EMPTY of
                        Inl e \<Rightarrow> Inl e
                      | Inr g1 \<Rightarrow>
                          (case put2 g1 (ny * 2 + 1) (nx * 2 + 1) TILE_EMPTY of
                             Inl e \<Rightarrow> Inl e
                           | Inr g2 \<Rightarrow>
                               (case carve rnd w h frames nx ny (s\<lparr>g := g2\<rparr>) of
                                  Inl e \<Rightarrow> Inl e
                                | Inr s' \<Rightarrow> carve_dirs rnd w h frames cx cy ds s')))
                else carve_dirs rnd w h frames cx cy ds s)
      else carve_dirs rnd w h frames cx cy ds s)"

text \<open>\<^verbatim>\<open>generateMaze(n)\<close>, with \<open>stack\<close> frames available, \<open>k\<close> calls of \<^verbatim>\<open>Math.random()\<close>
  made before; it returns the maze and the number of calls made after.\<close>

definition generateMaze :: "nat \<Rightarrow> (nat \<Rightarrow> nat) \<Rightarrow> nat \<Rightarrow> nat \<Rightarrow> error + (maze \<times> nat)" where
  "generateMaze stack rnd k n =
     (let w = n; h = n;
          gridW = w * 2 + 1; gridH = h * 2 + 1;
          g0 = replicate gridH (replicate gridW TILE_WALL);
          visited0 = replicate h (replicate w False)
      in case carve rnd (int w) (int h) stack 0 0 \<lparr>g = g0, visited = visited0, draws = k\<rparr> of
           Inl e \<Rightarrow> Inl e
         | Inr s \<Rightarrow> Inr (\<lparr>grid = g s, width = int gridW, height = int gridH\<rparr>, draws s))"

subsection \<open>\<^verbatim>\<open>pickRandomCell\<close> and \<^verbatim>\<open>distance\<close>\<close>

text \<open>The loop \<^verbatim>\<open>for (let i = 0; i < attempts; i++)\<close>: the third argument from the right
  is the number of attempts left, the last the number of \<^verbatim>\<open>Math.random()\<close> calls made.
  \<open>None\<close> means that the loop ended without returning.\<close>

fun draw_cell :: "(nat \<Rightarrow> nat) \<Rightarrow> grid \<Rightarrow> (int \<Rightarrow> int \<Rightarrow> bool) \<Rightarrow> nat \<Rightarrow> nat \<Rightarrow> nat \<Rightarrow> nat
                   \<Rightarrow> error + ((int \<times> int) option \<times> nat)" where
  "draw_cell rnd gr regionTest w h 0 k = Inr (None, k)"
| "draw_cell rnd gr regionTest w h (Suc left) k =
     (let x = int (random_below rnd k w);
          y = int (random_below rnd (k + 1) h)
      in case at2 gr y x of
           Inl e \<Rightarrow> Inl e
         | Inr t \<Rightarrow>
             if t = Some TILE_EMPTY \<and> regionTest x y then Inr (Some (x, y), k + 2)
             else draw_cell rnd gr regionTest w h left (k + 2))"

text \<open>The coordinates \<open>(x, y)\<close> in the order in which
  \<^verbatim>\<open>for (let y = 0; y < h; y++) for (let x = 0; x < w; x++)\<close> visits them.\<close>

definition scan_order :: "nat \<Rightarrow> nat \<Rightarrow> (int \<times> int) list" where
  "scan_order h w = concat (map (\<lambda>y. map (\<lambda>x. (int x, int y)) [0..<w]) [0..<h])"

text \<open>A scan that returns the first tile with
  \<^verbatim>\<open>grid[y][x] === TILE_EMPTY && regionTest(x, y)\<close>.\<close>

fun first_cell :: "grid \<Rightarrow> (int \<Rightarrow> int \<Rightarrow> bool) \<Rightarrow> (int \<times> int) list \<Rightarrow> error + (int \<times> int) option" where
  "first_cell gr regionTest [] = Inr None"
| "first_cell gr regionTest ((x, y) # rest) =
     (case at2 gr y x of
        Inl e \<Rightarrow> Inl e
      | Inr t \<Rightarrow>
          if t = Some TILE_EMPTY \<and> regionTest x y then Inr (Some (x, y))
          else first_cell gr regionTest rest)"

text \<open>\<^verbatim>\<open>pickRandomCell(grid, regionTest, attempts)\<close>; \<^verbatim>\<open>grid[0].length\<close> throws on an empty
  array.\<close>

definition pickRandomCell :: "(nat \<Rightarrow> nat) \<Rightarrow> nat \<Rightarrow> grid \<Rightarrow> (int \<Rightarrow> int \<Rightarrow> bool) \<Rightarrow> nat
                              \<Rightarrow> error + ((int \<times> int) \<times> nat)" where
  "pickRandomCell rnd k gr regionTest attempts =
     (case gr of
        [] \<Rightarrow> Inl TypeError
      | row0 # _ \<Rightarrow>
          (let h = length gr; w = length row0 in
           case draw_cell rnd gr regionTest w h attempts k of
             Inl e \<Rightarrow> Inl e
           | Inr (Some c, k') \<Rightarrow> Inr (c, k')
           | Inr (None, k') \<Rightarrow>
               (case first_cell gr regionTest (scan_order h w) of
                  Inl e \<Rightarrow> Inl e
                | Inr (Some c) \<Rightarrow> Inr (c, k')
                | Inr None \<Rightarrow>
                    (case first_cell gr (\<lambda>x y. True) (scan_order h w) of
                       Inl e \<Rightarrow> Inl e
                     | Inr (Some c) \<Rightarrow> Inr (c, k')
                     | Inr None \<Rightarrow> Inr ((1, 1), k')))))"

text \<open>\<^verbatim>\<open>distance(a, b)\<close>, with the real square root for \<^verbatim>\<open>Math.sqrt\<close>.\<close>

definition distance :: "int \<times> int \<Rightarrow> int \<times> int \<Rightarrow> real" where
  "distance a b =
     (let dx = fst a - fst b; dy = snd a - snd b
      in sqrt (real_of_int (dx * dx + dy * dy)))"

subsection \<open>Spawn placement (lines 144 to 171 of the \<^verbatim>\<open>findMatch\<close> handler)\<close>

text \<open>\<^verbatim>\<open>Math.floor(gridW * 0.33)\<close> and \<^verbatim>\<open>Math.ceil(gridW * 0.66)\<close>, in integer arithmetic.\<close>

definition leftTopTest :: "int \<Rightarrow> int \<Rightarrow> int \<Rightarrow> int \<Rightarrow> bool" where
  "leftTopTest gridW gridH x y \<longleftrightarrow> x \<le> (gridW * 33) div 100 \<or> y \<le> (gridH * 33) div 100"

definition rightBottomTest :: "int \<Rightarrow> int \<Rightarrow> int \<Rightarrow> int \<Rightarrow> bool" where
  "rightBottomTest gridW gridH x y \<longleftrightarrow>
     x \<ge> - ((- (gridW * 66)) div 100) \<or> y \<ge> - ((- (gridH * 66)) div 100)"

definition minDist :: "int \<Rightarrow> int \<Rightarrow> real" where
  "minDist gridW gridH = real_of_int (max gridW gridH) * 0.45"

text \<open>The loop \<^verbatim>\<open>while (distance(aStart, bStart) < minDist && tries < 200)\<close>, from the
  values of \<open>tries\<close>, \<open>aStart\<close>, \<open>bStart\<close> before a test of its condition to their values
  after the loop.\<close>

function retry_spawns :: "(nat \<Rightarrow> nat) \<Rightarrow> grid \<Rightarrow> int \<Rightarrow> int \<Rightarrow> nat \<Rightarrow> int \<times> int \<Rightarrow> int \<times> int \<Rightarrow> nat
                      \<Rightarrow> error + (int \<times> int) \<times> (int \<times> int) \<times> nat \<times> nat" where
  "retry_spawns rnd gr gridW gridH tries aStart bStart k =
     (if distance aStart bStart < minDist gridW gridH \<and> tries < 200
      then (case pickRandomCell rnd k gr (leftTopTest gridW gridH) 500 of
              Inl e \<Rightarrow> Inl e
            | Inr (a', k1) \<Rightarrow>
                (case pickRandomCell rnd k1 gr (rightBottomTest gridW gridH) 500 of
                   Inl e \<Rightarrow> Inl e
                 | Inr (b', k2) \<Rightarrow> retry_spawns rnd gr gridW gridH (tries + 1) a' b' k2))
      else Inr (aStart, bStart, tries, k))"
  by pat_completeness auto
termination
  by (relation "measure (\<lambda>(rnd, gr, gridW, gridH, tries, aStart, bStart, k). 200 - tries)") auto

text \<open>The exhaustive scan for the empty tile farthest from \<open>aStart\<close>; the last argument is
  \<^verbatim>\<open>(best, bestD)\<close>.\<close>

fun farthest :: "grid \<Rightarrow> int \<times> int \<Rightarrow> (int \<times> int) list \<Rightarrow> (int \<times> int) \<times> real
                  \<Rightarrow> error + (int \<times> int) \<times> real" where
  "farthest gr aStart [] acc = Inr acc"
| "farthest gr aStart ((x, y) # rest) (best, bestD) =
     (case at2 gr y x of
        Inl e \<Rightarrow> Inl e
      | Inr t \<Rightarrow>
          if t \<noteq> Some TILE_EMPTY then farthest gr aStart rest (best, bestD)
          else (let d = distance aStart (x, y) in
                if d > bestD then farthest gr aStart rest ((x, y), d)
                else farthest gr aStart rest (best, bestD)))"

text \<open>The block: it returns the last values of \<open>aStart\<close>, \<open>bStart\<close> and \<open>tries\<close>, and the
  number of \<^verbatim>\<open>Math.random()\<close> calls made.\<close>

definition placeSpawns :: "(nat \<Rightarrow> nat) \<Rightarrow> nat \<Rightarrow> maze
                           \<Rightarrow> error + (int \<times> int) \<times> (int \<times> int) \<times> nat \<times> nat" where
  "placeSpawns rnd k mazeObj =
     (let gr = grid mazeObj; gridW = width mazeObj; gridH = height mazeObj in
      case pickRandomCell rnd k gr (leftTopTest gridW gridH) 500 of
        Inl e \<Rightarrow> Inl e
      | Inr (a0, k1) \<Rightarrow>
          (case pickRandomCell rnd k1 gr (rightBottomTest gridW gridH) 500 of
             Inl e \<Rightarrow> Inl e
           | Inr (b0, k2) \<Rightarrow>
               (case retry_spawns rnd gr gridW gridH 0 a0 b0 k2 of
                  Inl e \<Rightarrow> Inl e
                | Inr (aStart, bStart, tries, k3) \<Rightarrow>
                    if distance aStart bStart < minDist gridW gridH
                    then (case farthest gr aStart (scan_order (nat gridH) (nat gridW)) (aStart, -1) of
                            Inl e \<Rightarrow> Inl e
                          | Inr (best, bestD) \<Rightarrow> Inr (aStart, best, tries, k3))
                    else Inr (aStart, bStart, tries, k3))))"

subsection \<open>Rooms, sockets and emitted messages\<close>

text \<open>
  A socket is known by its \<^verbatim>\<open>socket.id\<close>, which socket.io generates; a room by the string
  \<^verbatim>\<open>makeRoomId\<close> builds. The objects \<^verbatim>\<open>rooms\<close> and \<^verbatim>\<open>players\<close> are association lists
  in insertion order, which is the order \<^verbatim>\<open>for ... in\<close> enumerates their keys in.
\<close>

type_synonym sid = string
type_synonym rid = string

text \<open>A player object \<^verbatim>\<open>{ id, x, y, color, exitX, exitY }\<close>.\<close>

record player =
  pid :: sid
  px :: int
  py :: int
  color :: string
  exitX :: int
  exitY :: int

record room =
  maze :: maze
  players :: "(sid \<times> player) list"

text \<open>The payload \<^verbatim>\<open>{ x, y, color, exitX, exitY }\<close> sent for a player.\<close>

type_synonym pview = "int \<times> int \<times> string \<times> int \<times> int"

definition view :: "player \<Rightarrow> pview" where
  "view p = (px p, py p, color p, exitX p, exitY p)"

datatype message =
    Status string
  | MatchFound rid grid int int "(sid \<times> pview) list"
  | State "(sid \<times> pview) list"
  | GameOver sid string
  | RevealMaze grid
  | OpponentDisconnected

text \<open>
  The module's variables \<^verbatim>\<open>waitingSocket\<close> and \<^verbatim>\<open>rooms\<close>, together with what the handlers
  act on outside the module: the sockets that have joined each socket.io room
  (\<open>members\<close>), the callbacks given to \<^verbatim>\<open>setTimeout\<close> with the time at which they are
  due (\<open>timers\<close>), the number of \<^verbatim>\<open>Math.random()\<close> calls made (\<open>calls\<close>), and every
  message emitted so far with the sockets it was sent to (\<open>outbox\<close>).
\<close>

record server =
  waitingSocket :: "sid option"
  rooms :: "(rid \<times> room) list"
  members :: "rid \<Rightarrow> sid list"
  timers :: "(nat \<times> rid) list"
  calls :: nat
  outbox :: "(sid list \<times> message) list"

text \<open>\<^verbatim>\<open>socket.emit(...)\<close>, \<^verbatim>\<open>io.to(roomId).emit(...)\<close>, \<^verbatim>\<open>socket.join(roomId)\<close> and
  \<^verbatim>\<open>socket.leave(roomId)\<close>.\<close>

definition emit_socket :: "sid \<Rightarrow> message \<Rightarrow> server \<Rightarrow> server" where
  "emit_socket s m st = st\<lparr>outbox := outbox st @ [([s], m)]\<rparr>"

definition emit_room :: "rid \<Rightarrow> message \<Rightarrow> server \<Rightarrow> server" where
  "emit_room roomId m st = st\<lparr>outbox := outbox st @ [(members st roomId, m)]\<rparr>"

definition join :: "sid \<Rightarrow> rid \<Rightarrow> server \<Rightarrow> server" where
  "join s roomId st =
     st\<lparr>members := (members st)(roomId :=
           (if s \<in> set (members st roomId) then members st roomId
            else members st roomId @ [s]))\<rparr>"

definition leave :: "sid \<Rightarrow> rid \<Rightarrow> server \<Rightarrow> server" where
  "leave s roomId st = st\<lparr>members := (members st)(roomId := removeAll s (members st roomId))\<rparr>"

text \<open>Decimal digits of \<^verbatim>\<open>Date.now()\<close>, and \<^verbatim>\<open>makeRoomId(a, b)\<close>.\<close>

function decimal :: "nat \<Rightarrow> string" where
  "decimal n =
     (if n < 10 then [''0123456789'' ! n]
      else decimal (n div 10) @ [''0123456789'' ! (n mod 10)])"
  by pat_completeness auto
termination
  by (relation "measure id") auto

definition makeRoomId :: "sid \<Rightarrow> sid \<Rightarrow> nat \<Rightarrow> rid" where
  "makeRoomId a b now = ''r-'' @ a @ ''-'' @ b @ ''-'' @ decimal now"

text \<open>
  The names every object literal inherits from \<^verbatim>\<open>Object.prototype\<close>. Looking one of them
  up in \<^verbatim>\<open>rooms\<close> or \<^verbatim>\<open>deltas\<close> yields a function (or, for \<^verbatim>\<open>__proto__\<close>, the prototype
  object): a truthy value without a \<^verbatim>\<open>players\<close> property and without elements.
\<close>

definition object_prototype_keys :: "string list" where
  "object_prototype_keys =
     [''constructor'', ''__defineGetter__'', ''__defineSetter__'', ''hasOwnProperty'',
      ''__lookupGetter__'', ''__lookupSetter__'', ''isPrototypeOf'', ''propertyIsEnumerable'',
      ''toString'', ''valueOf'', ''__proto__'', ''toLocaleString'']"

subsection \<open>The \<^verbatim>\<open>findMatch\<close> handler\<close>

definition findMatch :: "nat \<Rightarrow> (nat \<Rightarrow> nat) \<Rightarrow> nat \<Rightarrow> sid \<Rightarrow> server \<Rightarrow> error + server" where
  "findMatch stack rnd now s st =
     (case waitingSocket st of
        None \<Rightarrow>
          Inr (emit_socket s (Status ''Waiting for an opponent...'') (st\<lparr>waitingSocket := Some s\<rparr>))
      | Some ws \<Rightarrow>
          if ws = s then Inr (emit_socket s (Status ''Still waiting...'') st)
          else
            (let roomId = makeRoomId ws s now in
             case generateMaze stack rnd (calls st) MAZE_LOGICAL of
               Inl e \<Rightarrow> Inl e
             | Inr (mazeObj, k1) \<Rightarrow>
                 (case placeSpawns rnd k1 mazeObj of
                    Inl e \<Rightarrow> Inl e
                  | Inr (aStart, bStart, tries, k2) \<Rightarrow>
                      (let pA = \<lparr>pid = ws, px = fst aStart, py = snd aStart, color = ''#34ff72'',
                                 exitX = fst bStart, exitY = snd bStart\<rparr>;
                           pB = \<lparr>pid = s, px = fst bStart, py = snd bStart, color = ''#ff4d9e'',
                                 exitX = fst aStart, exitY = snd aStart\<rparr>;
                           r = \<lparr>maze = mazeObj,
                                players = AList.update (pid pB) pB (AList.update (pid pA) pA [])\<rparr>;
                           st1 = st\<lparr>rooms := AList.update roomId r (rooms st), calls := k2\<rparr>;
                           st2 = join s roomId (join ws roomId st1);
                           st3 = emit_room roomId
                                   (MatchFound roomId (grid mazeObj) (width mazeObj) (height mazeObj)
                                      (AList.update (pid pB) (view pB)
                                         (AList.update (pid pA) (view pA) [])))
                                   st2;
                           st4 = emit_room roomId
                                   (Status (''Game started '' @ [CHR 0xE2, CHR 0x80, CHR 0x94]
                                            @ '' reach the glowing exit!''))
                                   st3
                       in Inr (st4\<lparr>waitingSocket := None\<rparr>)))))"

subsection \<open>The \<^verbatim>\<open>move\<close> handler\<close>

text \<open>
  \<^verbatim>\<open>deltas[dir]\<close>: the unit vector of one of the four directions, \<^verbatim>\<open>undefined\<close>, or a
  property inherited from \<^verbatim>\<open>Object.prototype\<close>.
\<close>

datatype looked_up = Delta int int | Inherited | Undefined

definition deltas :: "string \<Rightarrow> looked_up" where
  "deltas dir =
     (if dir = ''up'' then Delta 0 (- 1)
      else if dir = ''down'' then Delta 0 1
      else if dir = ''left'' then Delta (- 1) 0
      else if dir = ''right'' then Delta 1 0
      else if dir \<in> set object_prototype_keys then Inherited
      else Undefined)"

text \<open>\<^verbatim>\<open>setTimeout(callback, delay)\<close> at time \<open>now\<close>; the callback of the source is
  \<open>teardown roomId\<close> below.\<close>

definition setTimeout :: "nat \<Rightarrow> rid \<Rightarrow> nat \<Rightarrow> server \<Rightarrow> server" where
  "setTimeout now roomId delay st = st\<lparr>timers := timers st @ [(now + delay, roomId)]\<rparr>"

text \<open>
  The handler, for the socket \<open>s\<close> and the payload \<^verbatim>\<open>{ roomId, dir }\<close>, at time \<open>now\<close>.
  \<^item> \<^verbatim>\<open>rooms[roomId]\<close> with an inherited name is truthy and has no \<^verbatim>\<open>players\<close>, so
    \<^verbatim>\<open>r.players[socket.id]\<close> throws.
  \<^item> \<^verbatim>\<open>deltas[dir]\<close> with an inherited name is truthy, \<^verbatim>\<open>d[0]\<close> and \<^verbatim>\<open>d[1]\<close> are
    \<^verbatim>\<open>undefined\<close>, \<open>nx\<close> and \<open>ny\<close> are \<^verbatim>\<open>NaN\<close>, every comparison of the bounds check is
    false, \<^verbatim>\<open>r.maze.grid[NaN]\<close> is \<^verbatim>\<open>undefined\<close> and reading \<^verbatim>\<open>[nx]\<close> of it throws.
\<close>

definition move :: "nat \<Rightarrow> sid \<Rightarrow> rid \<Rightarrow> string \<Rightarrow> server \<Rightarrow> error + server" where
  "move now s roomId dir st =
     (case map_of (rooms st) roomId of
        None \<Rightarrow> if roomId \<in> set object_prototype_keys then Inl TypeError else Inr st
      | Some r \<Rightarrow>
          (case map_of (players r) s of
             None \<Rightarrow> Inr st
           | Some player \<Rightarrow>
               (case deltas dir of
                  Undefined \<Rightarrow> Inr st
                | Inherited \<Rightarrow> Inl TypeError
                | Delta d0 d1 \<Rightarrow>
                    (let nx = px player + d0; ny = py player + d1 in
                     if nx < 0 \<or> ny < 0 \<or> nx \<ge> width (maze r) \<or> ny \<ge> height (maze r) then Inr st
                     else
                       (case at2 (grid (maze r)) ny nx of
                          Inl e \<Rightarrow> Inl e
                        | Inr t \<Rightarrow>
                            if t = Some TILE_WALL then Inr st
                            else
                              (let player' = player\<lparr>px := nx, py := ny\<rparr>;
                                   r' = r\<lparr>players := AList.update s player' (players r)\<rparr>;
                                   st1 = st\<lparr>rooms := AList.update roomId r' (rooms st)\<rparr>;
                                   st2 = emit_room roomId (State (map (\<lambda>(i, p). (i, view p)) (players r'))) st1
                               in if px player' = exitX player' \<and> py player' = exitY player'
                                  then Inr (setTimeout now roomId 4500
                                              (emit_room roomId (RevealMaze (grid (maze r')))
                                                 (emit_room roomId (GameOver s (color player')) st2)))
                                  else Inr st2))))))"

subsection \<open>Teardown: the timer's callback and the \<^verbatim>\<open>disconnect\<close> handler\<close>

text \<open>The callback of \<^verbatim>\<open>setTimeout\<close>: \<^verbatim>\<open>io.in(roomId).socketsLeave(roomId)\<close> inside
  \<^verbatim>\<open>try ... catch\<close>, then \<^verbatim>\<open>delete rooms[roomId]\<close>.\<close>

definition teardown :: "rid \<Rightarrow> server \<Rightarrow> server" where
  "teardown roomId st =
     st\<lparr>members := (members st)(roomId := []), rooms := AList.delete roomId (rooms st)\<rparr>"

text \<open>The timers that are due at \<open>now\<close> run in the order in which they were set.\<close>

definition run_timers :: "nat \<Rightarrow> server \<Rightarrow> server" where
  "run_timers now st =
     fold (\<lambda>(t, roomId) st'. teardown roomId st')
       (filter (\<lambda>(t, roomId). t \<le> now) (timers st))
       (st\<lparr>timers := filter (\<lambda>(t, roomId). \<not> t \<le> now) (timers st)\<rparr>)"

text \<open>The loop \<^verbatim>\<open>for (const roomId in rooms)\<close> of the \<^verbatim>\<open>disconnect\<close> handler, over the keys
  still to visit.\<close>

fun disconnect_rooms :: "sid \<Rightarrow> rid list \<Rightarrow> server \<Rightarrow> server" where
  "disconnect_rooms s [] st = st"
| "disconnect_rooms s (roomId # rest) st =
     (case map_of (rooms st) roomId of
        None \<Rightarrow> disconnect_rooms s rest st
      | Some r \<Rightarrow>
          if map_of (players r) s \<noteq> None
          then (let st1 = emit_room roomId OpponentDisconnected st;
                    st2 = fold (\<lambda>p st'. leave p roomId st') (map fst (players r)) st1;
                    st3 = st2\<lparr>rooms := AList.delete roomId (rooms st2)\<rparr>
                in disconnect_rooms s rest st3)
          else disconnect_rooms s rest st)"

text \<open>The handler. socket.io takes a socket out of every room it had joined before it
  emits \<^verbatim>\<open>disconnect\<close>.\<close>

definition disconnect :: "sid \<Rightarrow> server \<Rightarrow> server" where
  "disconnect s st =
     (let st0 = st\<lparr>members := (\<lambda>roomId. removeAll s (members st roomId))\<rparr>;
          st1 = (if waitingSocket st0 = Some s then st0\<lparr>waitingSocket := None\<rparr> else st0)
      in disconnect_rooms s (map fst (rooms st1)) st1)"

subsection \<open>The server as a whole\<close>

text \<open>The module starts with \<^verbatim>\<open>let waitingSocket = null; const rooms = {};\<close>.\<close>

definition init :: server where
  "init = \<lparr>waitingSocket = None, rooms = [], members = (\<lambda>roomId. []), timers = [],
            calls = 0, outbox = []\<rparr>"

text \<open>What the event loop hands to the module: a message of a connected socket, the
  disconnection of a socket, or the turn of the timers.\<close>

datatype event = FindMatch sid | Move sid rid string | Disconnect sid | Timers

text \<open>One event, handled to completion at time \<open>now\<close>; then a list of events with their
  times. An uncaught exception ends the run.\<close>

fun handle :: "nat \<Rightarrow> (nat \<Rightarrow> nat) \<Rightarrow> nat \<Rightarrow> event \<Rightarrow> server \<Rightarrow> error + server" where
  "handle stack rnd now (FindMatch s) st = findMatch stack rnd now s st"
| "handle stack rnd now (Move s roomId dir) st = move now s roomId dir st"
| "handle stack rnd now (Disconnect s) st = Inr (disconnect s st)"
| "handle stack rnd now Timers st = Inr (run_timers now st)"

fun run :: "nat \<Rightarrow> (nat \<Rightarrow> nat) \<Rightarrow> (nat \<times> event) list \<Rightarrow> server \<Rightarrow> error + server" where
  "run stack rnd [] st = Inr st"
| "run stack rnd ((now, ev) # evs) st =
     (case handle stack rnd now ev st of
        Inl e \<Rightarrow> Inl e
      | Inr st' \<Rightarrow> run stack rnd evs st')"

section \<open>The generated maze is a perfect maze\<close>

definition rect :: "'a list list \<Rightarrow> nat \<Rightarrow> nat \<Rightarrow> bool" where
  "rect a h w \<longleftrightarrow> length a = h \<and> (\<forall>row \<in> set a. length row = w)"

definition tiles_where :: "('a \<Rightarrow> bool) \<Rightarrow> 'a list list \<Rightarrow> (nat \<times> nat) set" where
  "tiles_where P a = {(x, y). y < length a \<and> x < length (a ! y) \<and> P (a ! y ! x)}"

definition empties :: "grid \<Rightarrow> (nat \<times> nat) set" where
  "empties gr = tiles_where (\<lambda>t. t = TILE_EMPTY) gr"

definition marked :: "bool list list \<Rightarrow> (nat \<times> nat) set" where
  "marked v = tiles_where (\<lambda>b. b) v"

definition upd2 :: "'a list list \<Rightarrow> nat \<Rightarrow> nat \<Rightarrow> 'a \<Rightarrow> 'a list list" where
  "upd2 a y x v = a[y := (a ! y)[x := v]]"

lemma rect_nth: "rect a h w \<Longrightarrow> y < h \<Longrightarrow> length (a ! y) = w"
  by (simp add: rect_def)

lemma rect_upd2: "rect a h w \<Longrightarrow> rect (upd2 a y x v) h w"
proof (cases "y < length a")
  case True
  assume r: "rect a h w"
  have "length ((a ! y)[x := v]) = w" using r True by (simp add: rect_def)
  then show ?thesis using r unfolding rect_def upd2_def
    by (auto dest!: set_update_subset_insert[THEN subsetD])
next
  case False
  assume "rect a h w"
  then show ?thesis using False by (simp add: upd2_def list_update_beyond)
qed

lemma put2_rect:
  "rect a h w \<Longrightarrow> y < h \<Longrightarrow> x < w \<Longrightarrow> put2 a (int y) (int x) v = Inr (upd2 a y x v)"
  by (simp add: put2_def upd2_def rect_def)

lemma at2_rect:
  "rect a h w \<Longrightarrow> y < h \<Longrightarrow> x < w \<Longrightarrow> at2 a (int y) (int x) = Inr (Some (a ! y ! x))"
  by (simp add: at2_def rect_def)

lemma tiles_where_rect:
  "rect a h w \<Longrightarrow> tiles_where P a = {(x, y). y < h \<and> x < w \<and> P (a ! y ! x)}"
  by (auto simp: tiles_where_def rect_def)

lemma upd2_nth:
  "rect a h w \<Longrightarrow> y' < h \<Longrightarrow> x' < w \<Longrightarrow>
   upd2 a y x v ! y' ! x' = (if y' = y \<and> x' = x then v else a ! y' ! x')"
  by (cases "y' = y") (auto simp: upd2_def rect_def nth_list_update)

lemma tiles_where_upd2:
  assumes "rect a h w" "y < h" "x < w"
  shows "tiles_where P (upd2 a y x v) =
         (if P v then insert (x, y) (tiles_where P a) else tiles_where P a - {(x, y)})"
proof -
  have r: "rect (upd2 a y x v) h w" using assms(1) by (rule rect_upd2)
  show ?thesis
    unfolding tiles_where_rect[OF r] tiles_where_rect[OF assms(1)]
    using assms by (auto simp: upd2_nth[OF assms(1)] split: if_splits)
qed

lemma tiles_where_finite: "finite (tiles_where P a)"
proof -
  have "tiles_where P a \<subseteq> (\<Union>y \<in> {..<length a}. (\<lambda>x. (x, y)) ` {..<length (a ! y)})"
    by (auto simp: tiles_where_def)
  moreover have "finite (\<Union>y \<in> {..<length a}. (\<lambda>x. (x, y)) ` {..<length (a ! y)})"
    by simp
  ultimately show ?thesis by (rule finite_subset)
qed

lemma set_shuffle: "i < length dirs \<Longrightarrow> set (shuffle rnd k i dirs) = set dirs"
proof (induction i arbitrary: k dirs)
  case 0
  then show ?case by simp
next
  case (Suc i)
  have j: "random_below rnd k (Suc i + 1) < length dirs"
    using Suc.prems by (simp add: random_below_def) (meson less_Suc_eq_le mod_less_divisor less_le_trans zero_less_Suc not_less)
  show ?case
    using Suc.prems j by (simp add: Let_def Suc.IH set_swap)
qed

definition adjacent :: "nat \<times> nat \<Rightarrow> nat \<times> nat \<Rightarrow> bool" where
  "adjacent a b \<longleftrightarrow>
     (fst a = fst b \<and> (snd a = snd b + 1 \<or> snd b = snd a + 1)) \<or>
     (snd a = snd b \<and> (fst a = fst b + 1 \<or> fst b = fst a + 1))"

definition walk :: "grid \<Rightarrow> ((nat \<times> nat) \<times> (nat \<times> nat)) set" where
  "walk gr = {(a, b). a \<in> empties gr \<and> b \<in> empties gr \<and> adjacent a b}"

definition one_component :: "grid \<Rightarrow> bool" where
  "one_component gr \<longleftrightarrow> (\<forall>a \<in> empties gr. \<forall>b \<in> empties gr. (a, b) \<in> (walk gr)\<^sup>*)"

definition cells :: "nat \<Rightarrow> (nat \<times> nat) set" where
  "cells n = {..<n} \<times> {..<n}"

text \<open>Tile \<open>(x, y)\<close> is a cell's own tile, or lies between two marked cells.\<close>

definition between_marked :: "(nat \<times> nat) set \<Rightarrow> nat \<Rightarrow> nat \<Rightarrow> bool" where
  "between_marked V x y \<longleftrightarrow>
     (odd x \<or> odd y) \<and>
     (even x \<longrightarrow> 2 \<le> x \<and> (x div 2 - 1, y div 2) \<in> V \<and> (x div 2, y div 2) \<in> V) \<and>
     (even y \<longrightarrow> 2 \<le> y \<and> (x div 2, y div 2 - 1) \<in> V \<and> (x div 2, y div 2) \<in> V)"

definition carved :: "nat \<Rightarrow> grid \<Rightarrow> bool list list \<Rightarrow> bool" where
  "carved n gr v \<longleftrightarrow>
     rect gr (2 * n + 1) (2 * n + 1) \<and> rect v n n \<and>
     (\<forall>x y. x < n \<and> y < n \<longrightarrow> ((2 * x + 1, 2 * y + 1) \<in> empties gr \<longleftrightarrow> (x, y) \<in> marked v)) \<and>
     (\<forall>x y. (x, y) \<in> empties gr \<longrightarrow> between_marked (marked v) x y) \<and>
     card (empties gr) + 1 = 2 * card (marked v) \<and>
     (\<forall>t \<in> empties gr. ((1, 1), t) \<in> (walk gr)\<^sup>*)"

lemma marked_cells: "rect v n n \<Longrightarrow> marked v \<subseteq> cells n"
  by (auto simp: marked_def tiles_where_rect cells_def)

lemma walk_mono: "empties gr \<subseteq> empties gr' \<Longrightarrow> walk gr \<subseteq> walk gr'"
  by (auto simp: walk_def)

lemma walk_sym: "sym (walk gr)"
  by (auto simp: walk_def sym_def adjacent_def)

lemma between_marked_mono: "between_marked V x y \<Longrightarrow> V \<subseteq> V' \<Longrightarrow> between_marked V' x y"
  unfolding between_marked_def by blast

lemma tiles_where_replicate: "\<not> P v \<Longrightarrow> tiles_where P (replicate h (replicate w v)) = {}"
  by (auto simp: tiles_where_def)

lemma carved_first:
  assumes n: "0 < n"
  shows "carved n (upd2 (replicate (2 * n + 1) (replicate (2 * n + 1) TILE_WALL)) 1 1 TILE_EMPTY)
                  (upd2 (replicate n (replicate n False)) 0 0 True)"
proof -
  define g0 where "g0 = replicate (2 * n + 1) (replicate (2 * n + 1) TILE_WALL)"
  define v0 where "v0 = replicate n (replicate n False)"
  have rg: "rect g0 (2 * n + 1) (2 * n + 1)" and rv: "rect v0 n n"
    by (simp_all add: rect_def g0_def v0_def)
  have e0: "empties g0 = {}"
    unfolding empties_def g0_def
    by (rule tiles_where_replicate) (simp add: TILE_WALL_def TILE_EMPTY_def)
  have m0: "marked v0 = {}"
    unfolding marked_def v0_def by (rule tiles_where_replicate) simp
  have "1 < 2 * n + 1" using n by simp
  from tiles_where_upd2[OF rg this this, of "\<lambda>t. t = TILE_EMPTY" TILE_EMPTY]
  have e: "empties (upd2 g0 1 1 TILE_EMPTY) = {(1, 1)}"
    using e0 by (simp add: empties_def)
  from tiles_where_upd2[OF rv n n, of "\<lambda>b. b" True]
  have m: "marked (upd2 v0 0 0 True) = {(0, 0)}"
    using m0 by (simp add: marked_def)
  have bm: "between_marked {(0, 0)} 1 1"
    by (simp add: between_marked_def)
  have "carved n (upd2 g0 1 1 TILE_EMPTY) (upd2 v0 0 0 True)"
    unfolding carved_def e m
  proof (intro conjI)
    show "rect (upd2 g0 1 1 TILE_EMPTY) (2 * n + 1) (2 * n + 1)" using rg by (rule rect_upd2)
    show "rect (upd2 v0 0 0 True) n n" using rv by (rule rect_upd2)
    show "\<forall>x y. x < n \<and> y < n \<longrightarrow> ((2 * x + 1, 2 * y + 1) \<in> {(1, 1)}) = ((x, y) \<in> {(0, 0)})"
      by simp
    show "\<forall>x y. (x, y) \<in> {(1, 1)} \<longrightarrow> between_marked {(0, 0)} x y"
      using bm by simp
    show "card {(1::nat, 1::nat)} + 1 = 2 * card {(0::nat, 0::nat)}" by simp
    show "\<forall>t\<in>{(1, 1)}. ((1, 1), t) \<in> (walk (upd2 g0 1 1 TILE_EMPTY))\<^sup>*" by simp
  qed
  then show ?thesis by (simp only: g0_def v0_def)
qed

lemma between_new:
  assumes "adjacent (x, y) (x', y')" "(x, y) \<in> V" "(x', y') \<in> V"
  shows "between_marked V (x + x' + 1) (y + y' + 1)"
proof -
  from assms(1) consider "x = x'" "y = y' + 1" | "x = x'" "y' = y + 1"
    | "y = y'" "x = x' + 1" | "y = y'" "x' = x + 1"
    by (auto simp: adjacent_def)
  then show ?thesis
  proof cases
    case 1 then show ?thesis using assms(2,3) by (simp add: between_marked_def)
  next
    case 2 then show ?thesis using assms(2,3) by (simp add: between_marked_def)
  next
    case 3 then show ?thesis using assms(2,3) by (simp add: between_marked_def)
  next
    case 4 then show ?thesis using assms(2,3) by (simp add: between_marked_def)
  qed
qed

lemma between_old:
  assumes "adjacent (x, y) (x', y')" "between_marked V (x + x' + 1) (y + y' + 1)"
  shows "(x', y') \<in> V"
proof -
  from assms(1) consider "x = x'" "y = y' + 1" | "x = x'" "y' = y + 1"
    | "y = y'" "x = x' + 1" | "y = y'" "x' = x + 1"
    by (auto simp: adjacent_def)
  then show ?thesis
  proof cases
    case 1 then show ?thesis using assms(2) by (simp add: between_marked_def)
  next
    case 2 then show ?thesis using assms(2) by (simp add: between_marked_def)
  next
    case 3 then show ?thesis using assms(2) by (simp add: between_marked_def)
  next
    case 4 then show ?thesis using assms(2) by (simp add: between_marked_def)
  qed
qed

lemma between_cell: "(x, y) \<in> V \<Longrightarrow> between_marked V (2 * x + 1) (2 * y + 1)"
  by (simp add: between_marked_def)

lemma adjacent_mid:
  assumes "adjacent (x, y) (x', y')"
  shows "adjacent (2 * x + 1, 2 * y + 1) (x + x' + 1, y + y' + 1)"
    and "adjacent (x + x' + 1, y + y' + 1) (2 * x' + 1, 2 * y' + 1)"
    and "(x + x' + 1, y + y' + 1) \<noteq> (2 * x' + 1, 2 * y' + 1)"
  using assms by (auto simp: adjacent_def)

lemma carved_step:
  assumes c: "carved n gr v"
    and a: "(x, y) \<in> marked v"
    and b: "x' < n" "y' < n" "(x', y') \<notin> marked v"
    and adj: "adjacent (x, y) (x', y')"
  shows "carved n (upd2 (upd2 gr (y + y' + 1) (x + x' + 1) TILE_EMPTY) (2 * y' + 1) (2 * x' + 1) TILE_EMPTY)
                  (upd2 v y' x' True)"
    and "marked (upd2 v y' x' True) = insert (x', y') (marked v)"
proof -
  define p where "p = (x + x' + 1, y + y' + 1)"
  define q where "q = (2 * x' + 1, 2 * y' + 1)"
  define g1 where "g1 = upd2 gr (y + y' + 1) (x + x' + 1) TILE_EMPTY"
  define g2 where "g2 = upd2 g1 (2 * y' + 1) (2 * x' + 1) TILE_EMPTY"
  define v' where "v' = upd2 v y' x' True"
  from c have rg: "rect gr (2 * n + 1) (2 * n + 1)" and rv: "rect v n n"
    by (simp_all add: carved_def)
  from a rv have xy: "x < n" "y < n"
    by (auto simp: marked_def tiles_where_rect)
  have rg1: "rect g1 (2 * n + 1) (2 * n + 1)" unfolding g1_def using rg by (rule rect_upd2)
  have rg2: "rect g2 (2 * n + 1) (2 * n + 1)" unfolding g2_def using rg1 by (rule rect_upd2)
  have rv': "rect v' n n" unfolding v'_def using rv by (rule rect_upd2)
  have pin: "y + y' + 1 < 2 * n + 1" "x + x' + 1 < 2 * n + 1"
    using xy b by simp_all
  have cin: "2 * y' + 1 < 2 * n + 1" "2 * x' + 1 < 2 * n + 1"
    using b by simp_all
  have e1: "empties g1 = insert p (empties gr)"
    using tiles_where_upd2[OF rg pin, of "\<lambda>t. t = TILE_EMPTY" TILE_EMPTY]
    by (simp add: empties_def g1_def p_def)
  have e2: "empties g2 = insert q (insert p (empties gr))"
    using tiles_where_upd2[OF rg1 cin, of "\<lambda>t. t = TILE_EMPTY" TILE_EMPTY] e1
    by (simp add: empties_def g2_def q_def)
  have m: "marked v' = insert (x', y') (marked v)"
    using tiles_where_upd2[OF rv b(2) b(1), of "\<lambda>b. b" True]
    by (simp add: marked_def v'_def)
  then show "marked (upd2 v y' x' True) = insert (x', y') (marked v)"
    by (simp add: v'_def)
  have A: "\<And>x y. x < n \<Longrightarrow> y < n \<Longrightarrow> ((2 * x + 1, 2 * y + 1) \<in> empties gr \<longleftrightarrow> (x, y) \<in> marked v)"
    and B: "\<And>x y. (x, y) \<in> empties gr \<Longrightarrow> between_marked (marked v) x y"
    and C: "card (empties gr) + 1 = 2 * card (marked v)"
    and D: "\<And>t. t \<in> empties gr \<Longrightarrow> ((1, 1), t) \<in> (walk gr)\<^sup>*"
    using c unfolding carved_def by blast+
  have qnot: "q \<notin> empties gr" unfolding q_def using A[OF b(1) b(2)] b(3) by simp
  have pnot: "p \<notin> empties gr"
  proof
    assume "p \<in> empties gr"
    then have "between_marked (marked v) (x + x' + 1) (y + y' + 1)"
      unfolding p_def by (rule B)
    with adj have "(x', y') \<in> marked v" by (rule between_old)
    with b(3) show False by simp
  qed
  have pq: "p \<noteq> q" unfolding p_def q_def using adj by (rule adjacent_mid(3))
  have fin: "finite (empties gr)" "finite (marked v)"
    by (simp_all add: empties_def marked_def tiles_where_finite)
  have C': "card (empties g2) + 1 = 2 * card (marked v')"
    unfolding e2 m using C qnot pnot pq fin b(3) by simp
  have A': "(2 * i + 1, 2 * j + 1) \<in> empties g2 \<longleftrightarrow> (i, j) \<in> marked v'"
    if ij: "i < n" "j < n" for i j
  proof -
    have "(2 * i + 1, 2 * j + 1) \<noteq> p"
    proof
      assume "(2 * i + 1, 2 * j + 1) = p"
      then have "2 * i = x + x'" "2 * j = y + y'" by (simp_all add: p_def)
      with adj show False by (auto simp: adjacent_def) presburger+
    qed
    moreover have "(2 * i + 1, 2 * j + 1) = q \<longleftrightarrow> (i, j) = (x', y')"
      by (auto simp: q_def)
    ultimately show ?thesis
      unfolding e2 m using A[OF ij] by simp
  qed
  have B': "between_marked (marked v') i j" if "(i, j) \<in> empties g2" for i j
  proof -
    from that consider "(i, j) = q" | "(i, j) = p" | "(i, j) \<in> empties gr"
      unfolding e2 by blast
    then show ?thesis
    proof cases
      case 1
      then show ?thesis using between_cell[of x' y' "marked v'"] m by (simp add: q_def)
    next
      case 2
      have "between_marked (marked v') (x + x' + 1) (y + y' + 1)"
        using adj by (rule between_new) (use a m in simp_all)
      with 2 show ?thesis by (simp add: p_def)
    next
      case 3
      then have "between_marked (marked v) i j" by (rule B)
      then show ?thesis by (rule between_marked_mono) (use m in auto)
    qed
  qed
  have sub: "(walk gr)\<^sup>* \<subseteq> (walk g2)\<^sup>*"
    by (rule rtrancl_mono, rule walk_mono) (auto simp: e2)
  have o: "(2 * x + 1, 2 * y + 1) \<in> empties gr" using A[OF xy] a by simp
  have o1: "((1, 1), (2 * x + 1, 2 * y + 1)) \<in> (walk g2)\<^sup>*"
    using D[OF o] sub by blast
  have s1: "((2 * x + 1, 2 * y + 1), p) \<in> walk g2"
    unfolding walk_def p_def using adjacent_mid(1)[OF adj] o
    by (simp add: e2 p_def)
  have s2: "(p, q) \<in> walk g2"
    unfolding walk_def p_def q_def using adjacent_mid(2)[OF adj]
    by (simp add: e2 p_def q_def)
  have op: "((1, 1), p) \<in> (walk g2)\<^sup>*" using o1 s1 by (rule rtrancl_into_rtrancl)
  have oq: "((1, 1), q) \<in> (walk g2)\<^sup>*" using op s2 by (rule rtrancl_into_rtrancl)
  have D': "((1, 1), t) \<in> (walk g2)\<^sup>*" if "t \<in> empties g2" for t
  proof -
    from that consider "t = q" | "t = p" | "t \<in> empties gr"
      unfolding e2 by blast
    then show ?thesis
    proof cases
      case 1 then show ?thesis using oq by simp
    next
      case 2 then show ?thesis using op by simp
    next
      case 3 then show ?thesis using D sub by blast
    qed
  qed
  have "carved n g2 v'"
    unfolding carved_def using rg2 rv' A' B' C' D' by blast
  then show "carved n (upd2 (upd2 gr (y + y' + 1) (x + x' + 1) TILE_EMPTY) (2 * y' + 1) (2 * x' + 1) TILE_EMPTY)
                  (upd2 v y' x' True)"
    by (simp only: g2_def g1_def v'_def)
qed

definition settled :: "nat \<Rightarrow> (nat \<times> nat) set \<Rightarrow> nat \<times> nat \<Rightarrow> bool" where
  "settled n V c \<longleftrightarrow> (\<forall>c'. adjacent c c' \<and> c' \<in> cells n \<longrightarrow> c' \<in> V)"

lemma settled_mono: "settled n V c \<Longrightarrow> V \<subseteq> V' \<Longrightarrow> settled n V' c"
  unfolding settled_def by blast

lemma upd2_same:
  "rect a h w \<Longrightarrow> y < h \<Longrightarrow> x < w \<Longrightarrow> a ! y ! x = v \<Longrightarrow> upd2 a y x v = a"
  by (auto simp: upd2_def)

lemma carve_dirs_outside:
  "\<not> (cx + dx \<ge> 0 \<and> cx + dx < w \<and> cy + dy \<ge> 0 \<and> cy + dy < h) \<Longrightarrow>
   carve_dirs rnd w h frames cx cy ((dx, dy) # ds) s = carve_dirs rnd w h frames cx cy ds s"
  by (auto simp: Let_def)

definition carve_spec :: "nat \<Rightarrow> (nat \<Rightarrow> nat) \<Rightarrow> nat \<Rightarrow> bool" where
  "carve_spec n rnd frames \<longleftrightarrow>
     (\<forall>x y s. x < n \<and> y < n \<and> rect (g s) (2 * n + 1) (2 * n + 1) \<and> rect (visited s) n n \<and>
        carved n (upd2 (g s) (2 * y + 1) (2 * x + 1) TILE_EMPTY) (upd2 (visited s) y x True) \<and>
        card (cells n - marked (upd2 (visited s) y x True)) < frames \<longrightarrow>
        (\<exists>s'. carve rnd (int n) (int n) frames (int x) (int y) s = Inr s' \<and>
              carved n (g s') (visited s') \<and>
              marked (upd2 (visited s) y x True) \<subseteq> marked (visited s') \<and>
              settled n (marked (visited s')) (x, y) \<and>
              (\<forall>c \<in> marked (visited s') - marked (upd2 (visited s) y x True).
                 settled n (marked (visited s')) c)))"

definition four_dirs :: "(int \<times> int) set" where
  "four_dirs = {(1, 0), (-1, 0), (0, 1), (0, -1)}"

lemma carve_dirs_spec:
  assumes H: "carve_spec n rnd frames"
  shows "x < n \<Longrightarrow> y < n \<Longrightarrow> carved n (g s) (visited s) \<Longrightarrow> (x, y) \<in> marked (visited s) \<Longrightarrow>
         card (cells n - marked (visited s)) \<le> frames \<Longrightarrow> set ds \<subseteq> four_dirs \<Longrightarrow>
         \<exists>s'. carve_dirs rnd (int n) (int n) frames (int x) (int y) ds s = Inr s' \<and>
              carved n (g s') (visited s') \<and>
              marked (visited s) \<subseteq> marked (visited s') \<and>
              (\<forall>c \<in> marked (visited s') - marked (visited s). settled n (marked (visited s')) c) \<and>
              (\<forall>(dx, dy) \<in> set ds. \<forall>x' y'. int x' = int x + dx \<and> int y' = int y + dy \<and> x' < n \<and> y' < n
                  \<longrightarrow> (x', y') \<in> marked (visited s'))"
proof (induction ds arbitrary: s)
  case Nil
  then show ?case by simp
next
  case (Cons d ds)
  obtain dx dy where d: "d = (dx, dy)" by (cases d)
  from Cons.prems(6) have dd: "(dx, dy) \<in> four_dirs" and dsub: "set ds \<subseteq> four_dirs"
    by (simp_all add: d)
  note c = Cons.prems(3)
  from c have rg: "rect (g s) (2 * n + 1) (2 * n + 1)" and rv: "rect (visited s) n n"
    by (simp_all add: carved_def)
  define inr where "inr \<longleftrightarrow> int x + dx \<ge> 0 \<and> int x + dx < int n \<and> int y + dy \<ge> 0 \<and> int y + dy < int n"
  show ?case
  proof (cases inr)
    case False
    from Cons.IH[OF Cons.prems(1-5) dsub] obtain s' where
      s': "carve_dirs rnd (int n) (int n) frames (int x) (int y) ds s = Inr s'"
        "carved n (g s') (visited s')" "marked (visited s) \<subseteq> marked (visited s')"
        "\<forall>c \<in> marked (visited s') - marked (visited s). settled n (marked (visited s')) c"
        "\<forall>(dx, dy) \<in> set ds. \<forall>x' y'. int x' = int x + dx \<and> int y' = int y + dy \<and> x' < n \<and> y' < n
                  \<longrightarrow> (x', y') \<in> marked (visited s')"
      by blast
    have run: "carve_dirs rnd (int n) (int n) frames (int x) (int y) (d # ds) s = Inr s'"
      using carve_dirs_outside[OF False[unfolded inr_def]] s'(1) unfolding d by (simp only:)
    have here: "\<forall>x' y'. int x' = int x + dx \<and> int y' = int y + dy \<and> x' < n \<and> y' < n
                  \<longrightarrow> (x', y') \<in> marked (visited s')"
      using False unfolding inr_def by auto
    show ?thesis
      using run s'(2-5) here by (auto simp: d)
  next
    case True
    define x' where "x' = nat (int x + dx)"
    define y' where "y' = nat (int y + dy)"
    from True have xy': "x' < n" "y' < n" "int x' = int x + dx" "int y' = int y + dy"
      unfolding inr_def x'_def y'_def by auto
    have adj: "adjacent (x, y) (x', y')"
      using dd xy'(3,4) unfolding four_dirs_def adjacent_def by auto
    have rd: "at2 (visited s) (int y + dy) (int x + dx) = Inr (Some (visited s ! y' ! x'))"
      using at2_rect[OF rv xy'(2) xy'(1)] xy'(3,4) by simp
    show ?thesis
    proof (cases "visited s ! y' ! x'")
      case True
      then have mk: "(x', y') \<in> marked (visited s)"
        using xy' rv by (simp add: marked_def tiles_where_rect)
      from Cons.IH[OF Cons.prems(1-5) dsub] obtain s' where
        s': "carve_dirs rnd (int n) (int n) frames (int x) (int y) ds s = Inr s'"
          "carved n (g s') (visited s')" "marked (visited s) \<subseteq> marked (visited s')"
          "\<forall>c \<in> marked (visited s') - marked (visited s). settled n (marked (visited s')) c"
          "\<forall>(dx, dy) \<in> set ds. \<forall>x' y'. int x' = int x + dx \<and> int y' = int y + dy \<and> x' < n \<and> y' < n
                    \<longrightarrow> (x', y') \<in> marked (visited s')"
        by blast
      have run: "carve_dirs rnd (int n) (int n) frames (int x) (int y) (d # ds) s = Inr s'"
        using \<open>inr\<close> True s'(1) rd by (simp add: d inr_def Let_def)
      have here: "\<forall>i j. int i = int x + dx \<and> int j = int y + dy \<and> i < n \<and> j < n
                    \<longrightarrow> (i, j) \<in> marked (visited s')"
      proof (intro allI impI)
        fix i j assume "int i = int x + dx \<and> int j = int y + dy \<and> i < n \<and> j < n"
        then have "i = x'" "j = y'" using xy'(3,4) by simp_all
        then show "(i, j) \<in> marked (visited s')" using mk s'(3) by auto
      qed
      show ?thesis
        using run s'(2-5) here by (auto simp: d)
    next
      case False
      then have nm: "(x', y') \<notin> marked (visited s)"
        using xy' rv by (simp add: marked_def tiles_where_rect)
      define g1 where "g1 = upd2 (g s) (y + y' + 1) (x + x' + 1) TILE_EMPTY"
      define g2 where "g2 = upd2 g1 (2 * y' + 1) (2 * x' + 1) TILE_EMPTY"
      define v' where "v' = upd2 (visited s) y' x' True"
      have st: "carved n g2 v'" and mv: "marked v' = insert (x', y') (marked (visited s))"
        unfolding g2_def g1_def v'_def
        using carved_step[OF c Cons.prems(4) xy'(1,2) nm adj] by simp_all
      have rg1: "rect g1 (2 * n + 1) (2 * n + 1)" unfolding g1_def using rg by (rule rect_upd2)
      have rg2: "rect g2 (2 * n + 1) (2 * n + 1)" unfolding g2_def using rg1 by (rule rect_upd2)
      have i1: "int y * 2 + 1 + dy = int (y + y' + 1)" "int x * 2 + 1 + dx = int (x + x' + 1)"
        using xy'(3,4) by simp_all
      have i2: "(int y + dy) * 2 + 1 = int (2 * y' + 1)" "(int x + dx) * 2 + 1 = int (2 * x' + 1)"
        using xy'(3,4) by simp_all
      have b1: "y + y' + 1 < 2 * n + 1" "x + x' + 1 < 2 * n + 1"
        using Cons.prems(1,2) xy'(1,2) by simp_all
      have b2: "2 * y' + 1 < 2 * n + 1" "2 * x' + 1 < 2 * n + 1"
        using xy'(1,2) by simp_all
      have p1: "put2 (g s) (int y * 2 + 1 + dy) (int x * 2 + 1 + dx) TILE_EMPTY = Inr g1"
        unfolding i1 g1_def using rg b1 by (rule put2_rect)
      have p2: "put2 g1 ((int y + dy) * 2 + 1) ((int x + dx) * 2 + 1) TILE_EMPTY = Inr g2"
        unfolding i2 g2_def using rg1 b2 by (rule put2_rect)
      have g2q: "g2 ! (2 * y' + 1) ! (2 * x' + 1) = TILE_EMPTY"
        unfolding g2_def using upd2_nth[OF rg1 b2] by simp
      have same: "upd2 g2 (2 * y' + 1) (2 * x' + 1) TILE_EMPTY = g2"
        using rg2 b2 g2q by (rule upd2_same)
      have cellsfin: "finite (cells n)" by (simp add: cells_def)
      have incells: "(x', y') \<in> cells n - marked (visited s)"
        using xy'(1,2) nm by (simp add: cells_def)
      have "cells n - marked v' = (cells n - marked (visited s)) - {(x', y')}"
        unfolding mv by blast
      then have "card (cells n - marked v') = card (cells n - marked (visited s)) - 1"
        using incells cellsfin by simp
      moreover have "0 < card (cells n - marked (visited s))"
        using incells cellsfin by (metis card_gt_0_iff empty_iff finite_Diff)
      ultimately have fuel: "card (cells n - marked v') < frames"
        using Cons.prems(5) by simp
      let ?s2 = "s\<lparr>g := g2\<rparr>"
      have sel: "g ?s2 = g2" "visited ?s2 = visited s" by simp_all
      have pre1: "rect (g ?s2) (2 * n + 1) (2 * n + 1)" "rect (visited ?s2) n n"
        unfolding sel using rg2 rv by this+
      have pre2: "carved n (upd2 (g ?s2) (2 * y' + 1) (2 * x' + 1) TILE_EMPTY) (upd2 (visited ?s2) y' x' True)"
        unfolding sel same v'_def[symmetric] by (rule st)
      have pre3: "card (cells n - marked (upd2 (visited ?s2) y' x' True)) < frames"
        unfolding sel v'_def[symmetric] by (rule fuel)
      have "x' < n \<and> y' < n \<and> rect (g ?s2) (2 * n + 1) (2 * n + 1) \<and> rect (visited ?s2) n n \<and>
        carved n (upd2 (g ?s2) (2 * y' + 1) (2 * x' + 1) TILE_EMPTY) (upd2 (visited ?s2) y' x' True) \<and>
        card (cells n - marked (upd2 (visited ?s2) y' x' True)) < frames"
        using xy'(1,2) pre1 pre2 pre3 by blast
      with H[unfolded carve_spec_def, rule_format, of x' y' ?s2]
      obtain s1 where s1: "carve rnd (int n) (int n) frames (int x') (int y') ?s2 = Inr s1"
        "carved n (g s1) (visited s1)" "marked v' \<subseteq> marked (visited s1)"
        "settled n (marked (visited s1)) (x', y')"
        "\<forall>c \<in> marked (visited s1) - marked v'. settled n (marked (visited s1)) c"
        by (auto simp: v'_def)
      have sub1: "marked (visited s) \<subseteq> marked (visited s1)"
        using s1(3) mv by blast
      have in1: "(x, y) \<in> marked (visited s1)" using Cons.prems(4) sub1 by blast
      have "cells n - marked (visited s1) \<subseteq> cells n - marked (visited s)"
        using sub1 by blast
      then have "card (cells n - marked (visited s1)) \<le> card (cells n - marked (visited s))"
        using cellsfin by (intro card_mono) simp_all
      then have fuel1: "card (cells n - marked (visited s1)) \<le> frames"
        using Cons.prems(5) by simp
      from Cons.IH[OF Cons.prems(1,2) s1(2) in1 fuel1 dsub] obtain s' where
        s': "carve_dirs rnd (int n) (int n) frames (int x) (int y) ds s1 = Inr s'"
          "carved n (g s') (visited s')" "marked (visited s1) \<subseteq> marked (visited s')"
          "\<forall>c \<in> marked (visited s') - marked (visited s1). settled n (marked (visited s')) c"
          "\<forall>(dx, dy) \<in> set ds. \<forall>x' y'. int x' = int x + dx \<and> int y' = int y + dy \<and> x' < n \<and> y' < n
                    \<longrightarrow> (x', y') \<in> marked (visited s')"
        by blast
      have run: "carve_dirs rnd (int n) (int n) frames (int x) (int y) (d # ds) s = Inr s'"
        using \<open>inr\<close> False rd p1 p2 s1(1) s'(1) xy'(3,4)
        by (simp add: d inr_def Let_def)
      have here: "\<forall>i j. int i = int x + dx \<and> int j = int y + dy \<and> i < n \<and> j < n
                    \<longrightarrow> (i, j) \<in> marked (visited s')"
      proof (intro allI impI)
        fix i j assume "int i = int x + dx \<and> int j = int y + dy \<and> i < n \<and> j < n"
        then have "i = x'" "j = y'" using xy'(3,4) by simp_all
        then show "(i, j) \<in> marked (visited s')" using mv s1(3) s'(3) by auto
      qed
      have new: "settled n (marked (visited s')) c" if "c \<in> marked (visited s') - marked (visited s)" for c
      proof (cases "c \<in> marked (visited s1)")
        case False
        then show ?thesis using that s'(4) by blast
      next
        case True
        have "settled n (marked (visited s1)) c"
        proof (cases "c = (x', y')")
          case True then show ?thesis using s1(4) by simp
        next
          case False
          then have "c \<in> marked (visited s1) - marked v'"
            using \<open>c \<in> marked (visited s1)\<close> that mv by blast
          then show ?thesis using s1(5) by blast
        qed
        then show ?thesis using s'(3) by (rule settled_mono)
      qed
      show ?thesis
        using run s'(2) sub1 s'(3) new s'(5) here by (auto simp: d)
    qed
  qed
qed

lemma carve_spec_all: "carve_spec n rnd frames"
proof (induction frames)
  case 0
  show ?case unfolding carve_spec_def by simp
next
  case (Suc f)
  show ?case
    unfolding carve_spec_def
  proof (intro allI impI, elim conjE)
    fix x y and s :: mstate
    assume xy: "x < n" "y < n"
      and rg: "rect (g s) (2 * n + 1) (2 * n + 1)" and rv: "rect (visited s) n n"
      and c: "carved n (upd2 (g s) (2 * y + 1) (2 * x + 1) TILE_EMPTY) (upd2 (visited s) y x True)"
      and fuel: "card (cells n - marked (upd2 (visited s) y x True)) < Suc f"
    define v1 where "v1 = upd2 (visited s) y x True"
    define g1 where "g1 = upd2 (g s) (2 * y + 1) (2 * x + 1) TILE_EMPTY"
    define ds where "ds = shuffle rnd (draws s) 3 [(1, 0), (-1, 0), (0, 1), (0, -1 :: int) :: int \<times> int]"
    define s1 where "s1 = s\<lparr>visited := v1, g := g1, draws := draws s + 3\<rparr>"
    have sel: "g s1 = g1" "visited s1 = v1" by (simp_all add: s1_def)
    have p1: "put2 (visited s) (int y) (int x) True = Inr v1"
      unfolding v1_def using rv xy(2,1) by (rule put2_rect)
    have b: "2 * y + 1 < 2 * n + 1" "2 * x + 1 < 2 * n + 1" using xy by simp_all
    have i: "int y * 2 + 1 = int (2 * y + 1)" "int x * 2 + 1 = int (2 * x + 1)" by simp_all
    have p2: "put2 (g s) (int y * 2 + 1) (int x * 2 + 1) TILE_EMPTY = Inr g1"
      unfolding i g1_def using rg b by (rule put2_rect)
    have run1: "carve rnd (int n) (int n) (Suc f) (int x) (int y) s =
                carve_dirs rnd (int n) (int n) f (int x) (int y) ds s1"
      by (simp add: p1 p2 ds_def s1_def)
    have dsset: "set ds \<subseteq> four_dirs"
      unfolding ds_def four_dirs_def by (subst set_shuffle) simp_all
    have dsall: "set ds = four_dirs"
      unfolding ds_def four_dirs_def by (subst set_shuffle) auto
    have c1: "carved n (g s1) (visited s1)" unfolding sel g1_def v1_def by (rule c)
    have m1: "(x, y) \<in> marked (visited s1)"
      unfolding sel v1_def marked_def using tiles_where_upd2[OF rv xy(2,1), of "\<lambda>b. b" True] by simp
    have f1: "card (cells n - marked (visited s1)) \<le> f"
      unfolding sel v1_def using fuel by simp
    from carve_dirs_spec[OF Suc.IH xy c1 m1 f1 dsset] obtain s' where
      s': "carve_dirs rnd (int n) (int n) f (int x) (int y) ds s1 = Inr s'"
        "carved n (g s') (visited s')" "marked (visited s1) \<subseteq> marked (visited s')"
        "\<forall>c \<in> marked (visited s') - marked (visited s1). settled n (marked (visited s')) c"
        "\<forall>(dx, dy) \<in> set ds. \<forall>x' y'. int x' = int x + dx \<and> int y' = int y + dy \<and> x' < n \<and> y' < n
                  \<longrightarrow> (x', y') \<in> marked (visited s')"
      by blast
    have st: "settled n (marked (visited s')) (x, y)"
      unfolding settled_def
    proof (intro allI impI, elim conjE)
      fix c' assume adj: "adjacent (x, y) c'" and cc: "c' \<in> cells n"
      obtain x' y' where c': "c' = (x', y')" by (cases c')
      have "(int x' - int x, int y' - int y) \<in> four_dirs"
        using adj unfolding c' adjacent_def four_dirs_def by auto
      then have "(int x' - int x, int y' - int y) \<in> set ds" using dsall by simp
      with s'(5) have "\<forall>i j. int i = int x + (int x' - int x) \<and> int j = int y + (int y' - int y) \<and> i < n \<and> j < n
                  \<longrightarrow> (i, j) \<in> marked (visited s')"
        by blast
      then show "c' \<in> marked (visited s')"
        using cc unfolding c' cells_def by simp
    qed
    show "\<exists>s'. carve rnd (int n) (int n) (Suc f) (int x) (int y) s = Inr s' \<and>
              carved n (g s') (visited s') \<and>
              marked (upd2 (visited s) y x True) \<subseteq> marked (visited s') \<and>
              settled n (marked (visited s')) (x, y) \<and>
              (\<forall>c \<in> marked (visited s') - marked (upd2 (visited s) y x True).
                 settled n (marked (visited s')) c)"
      using run1 s'(1-4) st unfolding sel v1_def by auto
  qed
qed

lemma settled_all:
  assumes s: "\<And>c. c \<in> V \<Longrightarrow> settled n V c" and o: "(0, 0) \<in> V"
  shows "cells n \<subseteq> V"
proof -
  have row: "x < n \<Longrightarrow> (x, 0) \<in> V" for x
  proof (induction x)
    case 0 show ?case by (rule o)
  next
    case (Suc x)
    then have "(x, 0) \<in> V" by simp
    then have "settled n V (x, 0)" by (rule s)
    moreover have "adjacent (x, 0) (Suc x, 0)" by (simp add: adjacent_def)
    moreover have "(Suc x, 0) \<in> cells n" using Suc.prems by (simp add: cells_def)
    ultimately show ?case unfolding settled_def by blast
  qed
  have col: "x < n \<Longrightarrow> y < n \<Longrightarrow> (x, y) \<in> V" for x y
  proof (induction y)
    case 0 then show ?case by (simp add: row)
  next
    case (Suc y)
    then have "(x, y) \<in> V" by simp
    then have "settled n V (x, y)" by (rule s)
    moreover have "adjacent (x, y) (x, Suc y)" by (simp add: adjacent_def)
    moreover have "(x, Suc y) \<in> cells n" using Suc.prems by (simp add: cells_def)
    ultimately show ?case unfolding settled_def by blast
  qed
  show ?thesis using col by (auto simp: cells_def)
qed

text \<open>What \<^verbatim>\<open>generateMaze\<close> returns, in terms of the invariant.\<close>

lemma generateMaze_carved:
  assumes n: "0 < n" and st: "n * n \<le> stack"
  shows "\<exists>s' :: mstate. generateMaze stack rnd k n =
               Inr (\<lparr>grid = g s', width = int (2 * n + 1), height = int (2 * n + 1)\<rparr>, draws s') \<and>
              carved n (g s') (visited s') \<and> marked (visited s') = cells n"
proof -
  define g0 where "g0 = replicate (n * 2 + 1) (replicate (n * 2 + 1) TILE_WALL)"
  define v0 where "v0 = replicate n (replicate n False)"
  define s0 where "s0 = \<lparr>g = g0, visited = v0, draws = k\<rparr>"
  have sel: "g s0 = g0" "visited s0 = v0" by (simp_all add: s0_def)
  have g0': "g0 = replicate (2 * n + 1) (replicate (2 * n + 1) TILE_WALL)"
    by (simp add: g0_def mult.commute)
  have rg: "rect (g s0) (2 * n + 1) (2 * n + 1)" and rv: "rect (visited s0) n n"
    unfolding sel by (simp_all add: rect_def g0' v0_def)
  have c: "carved n (upd2 (g s0) (2 * 0 + 1) (2 * 0 + 1) TILE_EMPTY) (upd2 (visited s0) 0 0 True)"
    unfolding sel g0' v0_def using carved_first[OF n] by simp
  have m0: "marked v0 = {}"
    unfolding marked_def v0_def by (rule tiles_where_replicate) simp
  have m: "marked (upd2 (visited s0) 0 0 True) = {(0, 0)}"
    unfolding sel marked_def
    using tiles_where_upd2[OF rv[unfolded sel] n n, of "\<lambda>b. b" True] m0
    by (simp add: marked_def)
  have "cells n - {(0, 0)} \<subset> cells n" using n by (auto simp: cells_def)
  then have "card (cells n - {(0, 0)}) < card (cells n)"
    by (intro psubset_card_mono) (simp_all add: cells_def)
  also have "card (cells n) = n * n" by (simp add: cells_def)
  finally have fuel: "card (cells n - marked (upd2 (visited s0) 0 0 True)) < stack"
    unfolding m using st by simp
  from carve_spec_all[of n rnd stack, unfolded carve_spec_def, rule_format, of 0 0 s0]
    n rg rv c fuel
  obtain s' where s': "carve rnd (int n) (int n) stack 0 0 s0 = Inr s'"
    "carved n (g s') (visited s')" "marked (upd2 (visited s0) 0 0 True) \<subseteq> marked (visited s')"
    "settled n (marked (visited s')) (0, 0)"
    "\<forall>c \<in> marked (visited s') - marked (upd2 (visited s0) 0 0 True). settled n (marked (visited s')) c"
    by auto
  have "settled n (marked (visited s')) c" if "c \<in> marked (visited s')" for c
    using that s'(4,5) unfolding m by (cases "c = (0, 0)") auto
  moreover have "(0, 0) \<in> marked (visited s')" using s'(3) unfolding m by simp
  ultimately have "cells n \<subseteq> marked (visited s')" by (rule settled_all)
  moreover have "marked (visited s') \<subseteq> cells n"
    using s'(2) by (intro marked_cells) (simp add: carved_def)
  ultimately have all: "marked (visited s') = cells n" by (rule subset_antisym[rotated])
  have "generateMaze stack rnd k n =
        Inr (\<lparr>grid = g s', width = int (2 * n + 1), height = int (2 * n + 1)\<rparr>, draws s')"
    unfolding generateMaze_def Let_def g0_def[symmetric] v0_def[symmetric] s0_def[symmetric]
    using s'(1) by (simp add: mult.commute)
  then show ?thesis using s'(2) all by blast
qed

definition cell_tile :: "nat \<times> nat \<Rightarrow> nat \<times> nat" where
  "cell_tile c = (2 * fst c + 1, 2 * snd c + 1)"

definition mid :: "nat \<times> nat \<Rightarrow> nat \<times> nat \<Rightarrow> nat \<times> nat" where
  "mid c c' = (fst c + fst c' + 1, snd c + snd c' + 1)"

definition passages :: "grid \<Rightarrow> (nat \<times> nat) set" where
  "passages gr = {t \<in> empties gr. even (fst t) \<or> even (snd t)}"

lemma between_mid:
  assumes b: "between_marked V x y" and e: "even x \<or> even y"
  shows "\<exists>c \<in> V. \<exists>c' \<in> V. adjacent c c' \<and> (x, y) = mid c c'"
proof (cases "even x")
  case True
  with b have oy: "odd y" and x2: "2 \<le> x"
    and m: "(x div 2 - 1, y div 2) \<in> V" "(x div 2, y div 2) \<in> V"
    by (auto simp: between_marked_def)
  have "adjacent (x div 2 - 1, y div 2) (x div 2, y div 2)"
    using x2 by (auto simp: adjacent_def)
  moreover have "(x, y) = mid (x div 2 - 1, y div 2) (x div 2, y div 2)"
    using True oy x2 by (auto simp: mid_def elim!: evenE oddE)
  ultimately show ?thesis using m by blast
next
  case False
  with e have ey: "even y" by simp
  with b False have y2: "2 \<le> y"
    and m: "(x div 2, y div 2 - 1) \<in> V" "(x div 2, y div 2) \<in> V"
    by (auto simp: between_marked_def)
  have "adjacent (x div 2, y div 2 - 1) (x div 2, y div 2)"
    using y2 by (auto simp: adjacent_def)
  moreover have "(x, y) = mid (x div 2, y div 2 - 1) (x div 2, y div 2)"
    using False ey y2 by (auto simp: mid_def elim!: evenE oddE)
  ultimately show ?thesis using m by blast
qed

lemma carved_one_component:
  assumes "carved n gr v"
  shows "one_component gr"
  unfolding one_component_def
proof (intro ballI)
  fix a b assume a: "a \<in> empties gr" and b: "b \<in> empties gr"
  from assms have D: "\<And>t. t \<in> empties gr \<Longrightarrow> ((1, 1), t) \<in> (walk gr)\<^sup>*"
    unfolding carved_def by blast
  have "((1, 1), a) \<in> (walk gr)\<^sup>*" using a by (rule D)
  then have "(a, (1, 1)) \<in> (walk gr)\<^sup>*"
    using walk_sym[of gr] by (simp add: sym_rtrancl symD)
  moreover have "((1, 1), b) \<in> (walk gr)\<^sup>*" using b by (rule D)
  ultimately show "(a, b) \<in> (walk gr)\<^sup>*" by (rule rtrancl_trans)
qed

lemma carved_passages:
  assumes c: "carved n gr v" and all: "marked v = cells n"
  shows "card (passages gr) = n * n - 1"
proof -
  from c have A: "\<And>x y. x < n \<Longrightarrow> y < n \<Longrightarrow> ((2 * x + 1, 2 * y + 1) \<in> empties gr \<longleftrightarrow> (x, y) \<in> marked v)"
    and B: "\<And>x y. (x, y) \<in> empties gr \<Longrightarrow> between_marked (marked v) x y"
    and C: "card (empties gr) + 1 = 2 * card (marked v)"
    and rg: "rect gr (2 * n + 1) (2 * n + 1)"
    unfolding carved_def by blast+
  have fin: "finite (empties gr)" by (simp add: empties_def tiles_where_finite)
  have img: "cell_tile ` cells n \<subseteq> empties gr"
    using A all by (auto simp: cells_def cell_tile_def)
  have disj: "cell_tile ` cells n \<inter> passages gr = {}"
    by (auto simp: passages_def cell_tile_def)
  have cover: "empties gr \<subseteq> cell_tile ` cells n \<union> passages gr"
  proof
    fix t assume t: "t \<in> empties gr"
    obtain x y where xy: "t = (x, y)" by (cases t)
    show "t \<in> cell_tile ` cells n \<union> passages gr"
    proof (cases "even x \<or> even y")
      case True then show ?thesis using t xy by (simp add: passages_def)
    next
      case False
      then have o: "odd x" "odd y" by simp_all
      have "x < 2 * n + 1" "y < 2 * n + 1"
        using t xy rg by (auto simp: empties_def tiles_where_rect)
      then have "x div 2 < n" "y div 2 < n" using o by (auto elim!: oddE)
      moreover have "cell_tile (x div 2, y div 2) = (x, y)"
        using o by (auto simp: cell_tile_def elim!: oddE)
      ultimately have "(x, y) \<in> cell_tile ` cells n"
        unfolding cells_def by (metis (no_types, lifting) SigmaI imageI lessThan_iff)
      then show ?thesis using xy by simp
    qed
  qed
  have eq: "empties gr = cell_tile ` cells n \<union> passages gr"
    using img cover by (auto simp: passages_def)
  have inj: "inj_on cell_tile (cells n)"
    by (auto simp: inj_on_def cell_tile_def)
  have cc: "card (cell_tile ` cells n) = n * n"
    using inj by (simp add: card_image cells_def)
  have finp: "finite (passages gr)" using fin by (simp add: passages_def)
  have "card (empties gr) = n * n + card (passages gr)"
    unfolding eq using disj finp cc by (subst card_Un_disjoint) (simp_all add: cells_def)
  moreover have "card (marked v) = n * n" unfolding all by (simp add: cells_def)
  ultimately show ?thesis using C by simp
qed

text \<open>
  Claim C1, as amended. \<^verbatim>\<open>carve\<close> recurses once for every cell it walks into, so
  \<^verbatim>\<open>generateMaze(n)\<close> needs up to \<open>n\<^sup>2\<close> nested calls and throws \<open>RangeError\<close> when the
  call stack admits fewer (the example after the theorem). For every \<open>n \<ge> 1\<close>, every
  sequence of random draws and a call stack that admits \<open>n\<^sup>2\<close> nested calls of \<^verbatim>\<open>carve\<close>,
  \<^verbatim>\<open>generateMaze(n)\<close> returns a grid of \<open>(2n+1) \<times> (2n+1)\<close> tiles in which the tiles of all
  \<open>n\<^sup>2\<close> logical cells are empty, the empty tiles form one connected component, and exactly
  \<open>n\<^sup>2 - 1\<close> further tiles are empty, each of them the tile between two neighbouring cells:
  a spanning tree of the cells.
\<close>

theorem generateMaze_perfect:
  assumes "1 \<le> n" and "n * n \<le> stack"
  shows "\<exists>m k'. generateMaze stack rnd k n = Inr (m, k') \<and>
           width m = int (2 * n + 1) \<and> height m = int (2 * n + 1) \<and>
           rect (grid m) (2 * n + 1) (2 * n + 1) \<and>
           cell_tile ` cells n \<subseteq> empties (grid m) \<and>
           one_component (grid m) \<and>
           card (passages (grid m)) = n * n - 1 \<and>
           (\<forall>p \<in> passages (grid m). \<exists>c \<in> cells n. \<exists>c' \<in> cells n. adjacent c c' \<and> p = mid c c')"
proof -
  from assms have n: "0 < n" by simp
  from generateMaze_carved[OF n assms(2), of rnd k] obtain s' :: mstate where
    run: "generateMaze stack rnd k n =
            Inr (\<lparr>grid = g s', width = int (2 * n + 1), height = int (2 * n + 1)\<rparr>, draws s')"
    and c: "carved n (g s') (visited s')" and all: "marked (visited s') = cells n"
    by blast
  from c have A: "\<And>x y. x < n \<Longrightarrow> y < n \<Longrightarrow> ((2 * x + 1, 2 * y + 1) \<in> empties (g s') \<longleftrightarrow> (x, y) \<in> marked (visited s'))"
    and B: "\<And>x y. (x, y) \<in> empties (g s') \<Longrightarrow> between_marked (marked (visited s')) x y"
    and rg: "rect (g s') (2 * n + 1) (2 * n + 1)"
    unfolding carved_def by blast+
  have img: "cell_tile ` cells n \<subseteq> empties (g s')"
    using A all by (auto simp: cells_def cell_tile_def)
  have pass: "\<exists>c \<in> cells n. \<exists>c' \<in> cells n. adjacent c c' \<and> p = mid c c'"
    if "p \<in> passages (g s')" for p
  proof -
    obtain x y where p: "p = (x, y)" by (cases p)
    from that have "(x, y) \<in> empties (g s')" "even x \<or> even y"
      by (simp_all add: passages_def p)
    then show ?thesis using between_mid[OF B, of x y] all p by simp
  qed
  show ?thesis
    using run rg img carved_one_component[OF c] carved_passages[OF c all] pass
    by simp
qed

theorem generateMaze_perfect_witness:
  "(1::nat) \<le> 2 \<and> (2::nat) * 2 \<le> 4 \<and>
   generateMaze 4 (\<lambda>_. 0) 0 2 =
     Inr (\<lparr>grid = [[1, 1, 1, 1, 1], [1, 0, 1, 0, 1], [1, 0, 1, 0, 1], [1, 0, 0, 0, 1], [1, 1, 1, 1, 1]],
           width = 5, height = 5\<rparr>, 12) \<and>
   one_component [[1, 1, 1, 1, 1], [1, 0, 1, 0, 1], [1, 0, 1, 0, 1], [1, 0, 0, 0, 1], [1, 1, 1, 1, 1]] \<and>
   card (passages [[1, 1, 1, 1, 1], [1, 0, 1, 0, 1], [1, 0, 1, 0, 1], [1, 0, 0, 0, 1], [1, 1, 1, 1, 1]]) = 3"
proof -
  have run: "generateMaze 4 (\<lambda>_. 0) 0 2 =
     Inr (\<lparr>grid = [[1, 1, 1, 1, 1], [1, 0, 1, 0, 1], [1, 0, 1, 0, 1], [1, 0, 0, 0, 1], [1, 1, 1, 1, 1]],
           width = 5, height = 5\<rparr>, 12)"
    by code_simp
  from generateMaze_perfect[of 2 4 "\<lambda>_. 0" 0]
  have "\<exists>m k'. generateMaze 4 (\<lambda>_. 0) 0 2 = Inr (m, k') \<and>
           one_component (grid m) \<and> card (passages (grid m)) = 2 * 2 - 1"
    by auto
  with run show ?thesis by auto
qed

text \<open>
  The claim without the proviso fails: when every draw is \<open>0\<close> the walk is a single chain
  through all the cells, and one frame fewer than \<open>n\<^sup>2\<close> is not enough, for \<open>n = 2\<close> as
  for the \<open>n = 7\<close> of the server.
\<close>

theorem generateMaze_stack_overflow:
  "(1::nat) \<le> 2 \<and> generateMaze 3 (\<lambda>_. 0) 0 2 = Inl RangeError \<and>
   (1::nat) \<le> 7 \<and> generateMaze 48 (\<lambda>_. 0) 0 7 = Inl RangeError"
proof -
  have "generateMaze 3 (\<lambda>_. 0) 0 2 = Inl RangeError" by code_simp
  moreover have "generateMaze 48 (\<lambda>_. 0) 0 7 = Inl RangeError" by code_simp
  ultimately show ?thesis by simp
qed

text \<open>
  Claim C10. For every \<open>n \<ge> 1\<close> (and a call stack that admits \<open>n\<^sup>2\<close> nested calls) the maze
  \<^verbatim>\<open>generateMaze(n)\<close> returns has an empty tile at \<open>(1, 1)\<close>, inside the grid: the tile
  \<^verbatim>\<open>pickRandomCell\<close> falls back to is an empty tile of every generated maze.
\<close>

theorem generateMaze_start_empty:
  assumes "1 \<le> n" and "n * n \<le> stack"
  shows "\<exists>m k'. generateMaze stack rnd k n = Inr (m, k') \<and>
           at2 (grid m) 1 1 = Inr (Some TILE_EMPTY) \<and> 1 < width m \<and> 1 < height m"
proof -
  from assms have n: "0 < n" by simp
  from generateMaze_carved[OF n assms(2), of rnd k] obtain s' :: mstate where
    run: "generateMaze stack rnd k n =
            Inr (\<lparr>grid = g s', width = int (2 * n + 1), height = int (2 * n + 1)\<rparr>, draws s')"
    and c: "carved n (g s') (visited s')" and all: "marked (visited s') = cells n"
    by blast
  from c have A: "\<And>x y. x < n \<Longrightarrow> y < n \<Longrightarrow> ((2 * x + 1, 2 * y + 1) \<in> empties (g s') \<longleftrightarrow> (x, y) \<in> marked (visited s'))"
    and rg: "rect (g s') (2 * n + 1) (2 * n + 1)"
    unfolding carved_def by blast+
  have "(0, 0) \<in> marked (visited s')" using n all by (simp add: cells_def)
  with A[OF n n] have "(1, 1) \<in> empties (g s')" by simp
  then have e: "g s' ! 1 ! 1 = TILE_EMPTY"
    by (simp add: empties_def tiles_where_def)
  have b: "1 < 2 * n + 1" using n by simp
  from at2_rect[OF rg b b] e have "at2 (g s') 1 1 = Inr (Some TILE_EMPTY)" by simp
  then show ?thesis using run n by simp
qed

theorem generateMaze_start_empty_witness:
  "(1::nat) \<le> 1 \<and> (1::nat) * 1 \<le> 1 \<and>
   generateMaze 1 (\<lambda>_. 0) 0 1 = Inr (\<lparr>grid = [[1, 1, 1], [1, 0, 1], [1, 1, 1]], width = 3, height = 3\<rparr>, 3) \<and>
   at2 [[1, 1, 1], [1, 0, 1], [1, 1, 1]] 1 1 = Inr (Some TILE_EMPTY)"
proof -
  have run: "generateMaze 1 (\<lambda>_. 0) 0 1 =
      Inr (\<lparr>grid = [[1, 1, 1], [1, 0, 1], [1, 1, 1]], width = 3, height = 3\<rparr>, 3)"
    by code_simp
  from generateMaze_start_empty[of 1 1 "\<lambda>_. 0" 0]
  have "\<exists>m k'. generateMaze 1 (\<lambda>_. 0) 0 1 = Inr (m, k') \<and> at2 (grid m) 1 1 = Inr (Some TILE_EMPTY)"
    by auto
  with run show ?thesis by auto
qed

section \<open>Choosing cells and spawns\<close>

lemma scan_order_nat:
  "(x, y) \<in> set (scan_order h w) \<longleftrightarrow> (\<exists>i < w. \<exists>j < h. x = int i \<and> y = int j)"
proof
  assume "(x, y) \<in> set (scan_order h w)"
  then show "\<exists>i < w. \<exists>j < h. x = int i \<and> y = int j"
    by (auto simp: scan_order_def)
next
  assume "\<exists>i < w. \<exists>j < h. x = int i \<and> y = int j"
  then obtain i j where ij: "i < w" "j < h" "x = int i" "y = int j" by blast
  have "(int i, int j) \<in> (\<lambda>xa. (int xa, int j)) ` {0..<w}" using ij(1) by (intro imageI) simp
  moreover have "j \<in> {0..<h}" using ij(2) by simp
  ultimately show "(x, y) \<in> set (scan_order h w)"
    unfolding scan_order_def ij(3,4) by auto
qed

lemma scan_order_iff:
  "(x, y) \<in> set (scan_order h w) \<longleftrightarrow> 0 \<le> x \<and> x < int w \<and> 0 \<le> y \<and> y < int h"
proof
  assume "(x, y) \<in> set (scan_order h w)"
  then show "0 \<le> x \<and> x < int w \<and> 0 \<le> y \<and> y < int h"
    by (auto simp: scan_order_nat)
next
  assume a: "0 \<le> x \<and> x < int w \<and> 0 \<le> y \<and> y < int h"
  then have "nat x < w \<and> nat y < h \<and> x = int (nat x) \<and> y = int (nat y)" by auto
  then show "(x, y) \<in> set (scan_order h w)"
    unfolding scan_order_nat by blast
qed

lemma at2_in_rect:
  assumes "rect a h w" "0 \<le> x" "x < int w" "0 \<le> y" "y < int h"
  shows "at2 a y x = Inr (Some (a ! nat y ! nat x))"
  using at2_rect[OF assms(1), of "nat y" "nat x"] assms by simp

lemma draw_cell_ok:
  assumes r: "rect gr h w" and h: "0 < h" and w: "0 < w"
  shows "\<exists>res k'. draw_cell rnd gr regionTest w h left k = Inr (res, k') \<and>
           (\<forall>x y. res = Some (x, y) \<longrightarrow>
              0 \<le> x \<and> x < int w \<and> 0 \<le> y \<and> y < int h \<and>
              at2 gr y x = Inr (Some TILE_EMPTY) \<and> regionTest x y)"
proof (induction left arbitrary: k)
  case 0
  show ?case by simp
next
  case (Suc left)
  define x where "x = int (random_below rnd k w)"
  define y where "y = int (random_below rnd (k + 1) h)"
  have b: "0 \<le> x" "x < int w" "0 \<le> y" "y < int h"
    using h w by (simp_all add: x_def y_def random_below_def)
  note rd = at2_in_rect[OF r b]
  have step: "draw_cell rnd gr regionTest w h (Suc left) k =
      (if Some (gr ! nat y ! nat x) = Some TILE_EMPTY \<and> regionTest x y then Inr (Some (x, y), k + 2)
       else draw_cell rnd gr regionTest w h left (k + 2))"
    unfolding draw_cell.simps Let_def x_def[symmetric] y_def[symmetric] rd by simp
  show ?case
  proof (cases "gr ! nat y ! nat x = TILE_EMPTY \<and> regionTest x y")
    case True
    then have "draw_cell rnd gr regionTest w h (Suc left) k = Inr (Some (x, y), k + 2)"
      unfolding step by simp
    then show ?thesis using b rd True by simp
  next
    case False
    then have "draw_cell rnd gr regionTest w h (Suc left) k =
               draw_cell rnd gr regionTest w h left (k + 2)"
      unfolding step by auto
    then show ?thesis using Suc.IH[of "k + 2"] by simp
  qed
qed

lemma first_cell_ok:
  assumes r: "rect gr h w"
  shows "set cs \<subseteq> set (scan_order h w) \<Longrightarrow>
         \<exists>res. first_cell gr regionTest cs = Inr res \<and>
           (\<forall>x y. res = Some (x, y) \<longrightarrow>
              (x, y) \<in> set cs \<and> at2 gr y x = Inr (Some TILE_EMPTY) \<and> regionTest x y) \<and>
           (res = None \<longrightarrow>
              (\<forall>x y. (x, y) \<in> set cs \<longrightarrow> \<not> (at2 gr y x = Inr (Some TILE_EMPTY) \<and> regionTest x y)))"
proof (induction cs)
  case Nil
  show ?case by simp
next
  case (Cons c cs)
  obtain x y where c: "c = (x, y)" by (cases c)
  from Cons.prems have "(x, y) \<in> set (scan_order h w)" and sub: "set cs \<subseteq> set (scan_order h w)"
    by (simp_all add: c)
  then have b: "0 \<le> x" "x < int w" "0 \<le> y" "y < int h"
    by (simp_all add: scan_order_iff)
  note rd = at2_in_rect[OF r b]
  show ?case
  proof (cases "gr ! nat y ! nat x = TILE_EMPTY \<and> regionTest x y")
    case True
    then show ?thesis using rd by (simp add: c)
  next
    case False
    from Cons.IH[OF sub] obtain res where
      res: "first_cell gr regionTest cs = Inr res"
        "\<forall>x y. res = Some (x, y) \<longrightarrow>
              (x, y) \<in> set cs \<and> at2 gr y x = Inr (Some TILE_EMPTY) \<and> regionTest x y"
        "res = None \<longrightarrow>
              (\<forall>x y. (x, y) \<in> set cs \<longrightarrow> \<not> (at2 gr y x = Inr (Some TILE_EMPTY) \<and> regionTest x y))"
      by blast
    have run: "first_cell gr regionTest (c # cs) = Inr res"
      using False rd res(1) by (auto simp: c)
    have here: "\<not> (at2 gr y x = Inr (Some TILE_EMPTY) \<and> regionTest x y)"
      using False rd by auto
    show ?thesis
      using run res(2,3) here by (auto simp: c)
  qed
qed


lemma pickRandomCell_ok:
  assumes r: "rect gr h w" and e: "empties gr \<noteq> {}"
  shows "\<exists>x y k'. pickRandomCell rnd k gr regionTest attempts = Inr ((x, y), k') \<and>
           0 \<le> x \<and> x < int w \<and> 0 \<le> y \<and> y < int h \<and>
           at2 gr y x = Inr (Some TILE_EMPTY) \<and> at2 gr y x \<noteq> Inr (Some TILE_WALL)"
proof -
  from e obtain x0 y0 where xy0: "(x0, y0) \<in> empties gr" by auto
  with r have b0: "y0 < h" "x0 < w"
    by (auto simp: empties_def tiles_where_rect)
  then have h: "0 < h" and w: "0 < w" by simp_all
  from r h obtain row0 rest where gr: "gr = row0 # rest"
    by (cases gr) (auto simp: rect_def)
  with r have lens: "length gr = h" "length row0 = w" by (auto simp: rect_def)
  have ne: "TILE_EMPTY \<noteq> TILE_WALL" by (simp add: TILE_EMPTY_def TILE_WALL_def)
  let ?so = "scan_order (length gr) (length row0)"
  from draw_cell_ok[OF r h w, of rnd regionTest attempts k] obtain res k' where
    d: "draw_cell rnd gr regionTest w h attempts k = Inr (res, k')"
       "\<forall>x y. res = Some (x, y) \<longrightarrow>
              0 \<le> x \<and> x < int w \<and> 0 \<le> y \<and> y < int h \<and>
              at2 gr y x = Inr (Some TILE_EMPTY) \<and> regionTest x y"
    by blast
  show ?thesis
  proof (cases res)
    case (Some c)
    obtain x y where c: "c = (x, y)" by (cases c)
    have "pickRandomCell rnd k gr regionTest attempts = Inr ((x, y), k')"
      unfolding pickRandomCell_def gr[symmetric] using d(1) Some c lens
      by (simp add: gr Let_def)
    then show ?thesis using d(2) Some c ne by auto
  next
    case None
    from first_cell_ok[OF r subset_refl, of regionTest] obtain res1 where
      f1: "first_cell gr regionTest (scan_order h w) = Inr res1"
        "\<forall>x y. res1 = Some (x, y) \<longrightarrow>
              (x, y) \<in> set (scan_order h w) \<and> at2 gr y x = Inr (Some TILE_EMPTY) \<and> regionTest x y"
      by blast
    show ?thesis
    proof (cases res1)
      case (Some c)
      obtain x y where c: "c = (x, y)" by (cases c)
      have "pickRandomCell rnd k gr regionTest attempts = Inr ((x, y), k')"
        using d(1) None f1(1) Some c lens by (simp add: pickRandomCell_def gr Let_def)
      then show ?thesis using f1(2) Some c ne by (auto simp: scan_order_iff)
    next
      case N1: None
      from first_cell_ok[OF r subset_refl, of "\<lambda>x y. True"] obtain res2 where
        f2: "first_cell gr (\<lambda>x y. True) (scan_order h w) = Inr res2"
          "\<forall>x y. res2 = Some (x, y) \<longrightarrow>
                (x, y) \<in> set (scan_order h w) \<and> at2 gr y x = Inr (Some TILE_EMPTY)"
          "res2 = None \<longrightarrow>
                (\<forall>x y. (x, y) \<in> set (scan_order h w) \<longrightarrow> \<not> at2 gr y x = Inr (Some TILE_EMPTY))"
        by auto
      have in0: "(int x0, int y0) \<in> set (scan_order h w)"
        using b0 by (simp add: scan_order_iff)
      have "at2 gr (int y0) (int x0) = Inr (Some TILE_EMPTY)"
        using at2_rect[OF r b0] xy0 by (simp add: empties_def tiles_where_def)
      with f2(3) in0 obtain c where Some2: "res2 = Some c" by (cases res2) auto
      obtain x y where c: "c = (x, y)" by (cases c)
      have "pickRandomCell rnd k gr regionTest attempts = Inr ((x, y), k')"
        using d(1) None f1(1) N1 f2(1) Some2 c lens by (simp add: pickRandomCell_def gr Let_def)
      then show ?thesis using f2(2) Some2 c ne by (auto simp: scan_order_iff)
    qed
  qed
qed

text \<open>
  Claim C9. On a grid of \<open>h\<close> rows of \<open>w\<close> tiles with at least one empty tile, for every region
  predicate, every number of attempts and every sequence of random draws, \<^verbatim>\<open>pickRandomCell\<close>
  returns, and the tile it returns lies inside the grid and is empty (so not a wall).
\<close>

theorem pickRandomCell_empty_tile:
  assumes r: "rect gr h w" and e: "empties gr \<noteq> {}"
  shows "\<exists>x y k'. pickRandomCell rnd k gr regionTest attempts = Inr ((x, y), k') \<and>
           0 \<le> x \<and> x < int w \<and> 0 \<le> y \<and> y < int h \<and>
           at2 gr y x = Inr (Some TILE_EMPTY) \<and> at2 gr y x \<noteq> Inr (Some TILE_WALL)"
  using r e by (rule pickRandomCell_ok)

theorem pickRandomCell_empty_tile_witness:
  "rect [[1, 1, 1], [1, 0, 1], [1, 1, 1 :: nat]] 3 3 \<and>
   empties [[1, 1, 1], [1, 0, 1], [1, 1, 1]] \<noteq> {} \<and>
   pickRandomCell (\<lambda>_. 0) 0 [[1, 1, 1], [1, 0, 1], [1, 1, 1]] (\<lambda>x y. False) 2 = Inr ((1, 1), 4) \<and>
   at2 [[1, 1, 1], [1, 0, 1], [1, 1, 1 :: nat]] 1 1 = Inr (Some TILE_EMPTY)"
proof -
  have r: "rect [[1, 1, 1], [1, 0, 1], [1, 1, 1 :: nat]] 3 3"
    by (simp add: rect_def)
  have "(1, 1) \<in> empties [[1, 1, 1], [1, 0, 1], [1, 1, 1]]"
    by (simp add: empties_def tiles_where_def TILE_EMPTY_def)
  then have e: "empties [[1, 1, 1], [1, 0, 1], [1, 1, 1]] \<noteq> {}" by blast
  have run: "pickRandomCell (\<lambda>_. 0) 0 [[1, 1, 1], [1, 0, 1], [1, 1, 1]] (\<lambda>x y. False) 2 = Inr ((1, 1), 4)"
    by code_simp
  from pickRandomCell_empty_tile[OF r e, of "\<lambda>_. 0" 0 "\<lambda>x y. False" 2] run
  have "at2 [[1, 1, 1], [1, 0, 1], [1, 1, 1 :: nat]] 1 1 = Inr (Some TILE_EMPTY)"
    by auto
  with r e run show ?thesis by blast
qed

definition empty_at :: "grid \<Rightarrow> int \<times> int \<Rightarrow> bool" where
  "empty_at gr c \<longleftrightarrow> at2 gr (snd c) (fst c) = Inr (Some TILE_EMPTY)"

text \<open>\<open>c\<close> comes before \<open>c'\<close> in the row-major scan.\<close>

definition scans_before :: "int \<times> int \<Rightarrow> int \<times> int \<Rightarrow> bool" where
  "scans_before c c' \<longleftrightarrow> snd c < snd c' \<or> (snd c = snd c' \<and> fst c < fst c')"

lemma sorted_scan_order: "sorted_wrt scans_before (scan_order h w)"
proof (induction h)
  case 0
  show ?case by (simp add: scan_order_def)
next
  case (Suc h)
  have split: "scan_order (Suc h) w = scan_order h w @ map (\<lambda>x. (int x, int h)) [0..<w]"
    by (simp add: scan_order_def)
  have row: "sorted_wrt scans_before (map (\<lambda>x. (int x, int h)) [0..<w])"
    by (simp add: sorted_wrt_map scans_before_def)
  have cross: "\<forall>c \<in> set (scan_order h w). \<forall>c' \<in> set (map (\<lambda>x. (int x, int h)) [0..<w]). scans_before c c'"
    by (auto simp: scan_order_def scans_before_def)
  show ?case
    unfolding split sorted_wrt_append using Suc.IH row cross by blast
qed

lemma distance_nonneg: "0 \<le> distance a b"
  by (simp add: distance_def Let_def)

lemma scans_before_irrefl: "\<not> scans_before c c"
  by (simp add: scans_before_def)

lemma scans_before_asym: "scans_before c c' \<Longrightarrow> \<not> scans_before c' c"
  by (auto simp: scans_before_def)

lemma farthest_spec:
  assumes r: "rect gr h w"
  shows "set cs \<subseteq> set (scan_order h w) \<Longrightarrow> sorted_wrt scans_before cs \<Longrightarrow>
    \<exists>best' bestD'. farthest gr a cs (best, bestD) = Inr (best', bestD') \<and> bestD \<le> bestD' \<and>
      (\<forall>c \<in> set cs. empty_at gr c \<longrightarrow> distance a c \<le> bestD') \<and>
      ((best', bestD') = (best, bestD) \<or>
       best' \<in> set cs \<and> empty_at gr best' \<and> bestD' = distance a best' \<and> bestD < bestD' \<and>
       (\<forall>c \<in> set cs. empty_at gr c \<and> scans_before c best' \<longrightarrow> distance a c < bestD'))"
proof (induction cs arbitrary: best bestD)
  case Nil
  show ?case by simp
next
  case (Cons c cs)
  obtain x y where c: "c = (x, y)" by (cases c)
  from Cons.prems have cin: "(x, y) \<in> set (scan_order h w)" and sub: "set cs \<subseteq> set (scan_order h w)"
    and srt: "sorted_wrt scans_before cs" and lt: "\<forall>c' \<in> set cs. scans_before c c'"
    by (simp_all add: c)
  from cin have b: "0 \<le> x" "x < int w" "0 \<le> y" "y < int h"
    by (simp_all add: scan_order_iff)
  note rd = at2_in_rect[OF r b]
  have ec: "empty_at gr c \<longleftrightarrow> gr ! nat y ! nat x = TILE_EMPTY"
    by (simp add: empty_at_def c rd)
  define d where "d = distance a (x, y)"
  have step: "farthest gr a (c # cs) (best, bestD) =
      (if gr ! nat y ! nat x \<noteq> TILE_EMPTY then farthest gr a cs (best, bestD)
       else if d > bestD then farthest gr a cs ((x, y), d)
       else farthest gr a cs (best, bestD))"
    unfolding c farthest.simps rd d_def by (simp add: Let_def)
  consider (skip) "gr ! nat y ! nat x \<noteq> TILE_EMPTY"
    | (new) "gr ! nat y ! nat x = TILE_EMPTY" "d > bestD"
    | (old) "gr ! nat y ! nat x = TILE_EMPTY" "\<not> d > bestD"
    by blast
  then show ?case
  proof cases
    case skip
    from Cons.IH[OF sub srt, of best bestD] obtain best' bestD' where
      ih: "farthest gr a cs (best, bestD) = Inr (best', bestD')" "bestD \<le> bestD'"
        "\<forall>c \<in> set cs. empty_at gr c \<longrightarrow> distance a c \<le> bestD'"
        "(best', bestD') = (best, bestD) \<or>
         best' \<in> set cs \<and> empty_at gr best' \<and> bestD' = distance a best' \<and> bestD < bestD' \<and>
         (\<forall>c \<in> set cs. empty_at gr c \<and> scans_before c best' \<longrightarrow> distance a c < bestD')"
      by blast
    have run: "farthest gr a (c # cs) (best, bestD) = Inr (best', bestD')"
      unfolding step using skip ih(1) by simp
    have nc: "\<not> empty_at gr c" using skip ec by simp
    show ?thesis
      using run ih(2-4) nc by auto
  next
    case new
    from Cons.IH[OF sub srt, of "(x, y)" d] obtain best' bestD' where
      ih: "farthest gr a cs ((x, y), d) = Inr (best', bestD')" "d \<le> bestD'"
        "\<forall>c \<in> set cs. empty_at gr c \<longrightarrow> distance a c \<le> bestD'"
        "(best', bestD') = ((x, y), d) \<or>
         best' \<in> set cs \<and> empty_at gr best' \<and> bestD' = distance a best' \<and> d < bestD' \<and>
         (\<forall>c \<in> set cs. empty_at gr c \<and> scans_before c best' \<longrightarrow> distance a c < bestD')"
      by blast
    have run: "farthest gr a (c # cs) (best, bestD) = Inr (best', bestD')"
      unfolding step using new ih(1) by simp
    have yc: "empty_at gr c" using new ec by simp
    have dc: "distance a c = d" by (simp add: d_def c)
    from ih(4) show ?thesis
    proof
      assume same: "(best', bestD') = ((x, y), d)"
      then have bc: "best' = c" "bestD' = d" by (simp_all add: c)
      have "\<forall>c' \<in> set (c # cs). empty_at gr c' \<and> scans_before c' best' \<longrightarrow> distance a c' < bestD'"
        unfolding bc using lt scans_before_irrefl scans_before_asym by auto
      then show ?thesis
        using run ih(2,3) new(2) yc dc bc by auto
    next
      assume ch: "best' \<in> set cs \<and> empty_at gr best' \<and> bestD' = distance a best' \<and> d < bestD' \<and>
         (\<forall>c \<in> set cs. empty_at gr c \<and> scans_before c best' \<longrightarrow> distance a c < bestD')"
      then show ?thesis
        using run ih(2,3) new(2) dc by auto
    qed
  next
    case old
    from Cons.IH[OF sub srt, of best bestD] obtain best' bestD' where
      ih: "farthest gr a cs (best, bestD) = Inr (best', bestD')" "bestD \<le> bestD'"
        "\<forall>c \<in> set cs. empty_at gr c \<longrightarrow> distance a c \<le> bestD'"
        "(best', bestD') = (best, bestD) \<or>
         best' \<in> set cs \<and> empty_at gr best' \<and> bestD' = distance a best' \<and> bestD < bestD' \<and>
         (\<forall>c \<in> set cs. empty_at gr c \<and> scans_before c best' \<longrightarrow> distance a c < bestD')"
      by blast
    have run: "farthest gr a (c # cs) (best, bestD) = Inr (best', bestD')"
      unfolding step using old ih(1) by simp
    have dc: "distance a c = d" by (simp add: d_def c)
    have dle: "d \<le> bestD" using old(2) by simp
    show ?thesis
      using run ih(2-4) dc dle by auto
  qed
qed

lemma empty_at_bounds:
  assumes r: "rect gr h w" and e: "empty_at gr c"
  shows "c \<in> set (scan_order h w)"
proof -
  obtain x y where c: "c = (x, y)" by (cases c)
  from e have y: "0 \<le> y \<and> y < int (length gr)"
    unfolding empty_at_def at2_def c by (auto split: if_splits)
  with r have "length (gr ! nat y) = w" "length gr = h" by (auto simp: rect_def)
  with e y have "0 \<le> x \<and> x < int w \<and> y < int h"
    unfolding empty_at_def at2_def c by (auto split: if_splits)
  with y show ?thesis by (simp add: c scan_order_iff)
qed

lemma pickRandomCell_empty_at:
  assumes r: "rect gr h w" and e: "empties gr \<noteq> {}"
  shows "\<exists>c k'. pickRandomCell rnd k gr regionTest attempts = Inr (c, k') \<and> empty_at gr c"
  using pickRandomCell_ok[OF r e, of rnd k regionTest attempts]
  by (auto simp: empty_at_def)

lemma retry_spawns_spec:
  assumes r: "rect gr h w" and e: "empties gr \<noteq> {}"
  shows "tries \<le> 200 \<Longrightarrow> empty_at gr a \<Longrightarrow> empty_at gr b \<Longrightarrow>
    \<exists>a' b' t' k'. retry_spawns rnd gr gridW gridH tries a b k = Inr (a', b', t', k') \<and>
       empty_at gr a' \<and> empty_at gr b' \<and>
       (distance a' b' < minDist gridW gridH \<longrightarrow> t' = 200)"
proof (induction "200 - tries" arbitrary: tries a b k)
  case 0
  then have t: "tries = 200" by simp
  have "retry_spawns rnd gr gridW gridH tries a b k = Inr (a, b, tries, k)"
    by (subst retry_spawns.simps) (simp add: t)
  then show ?case using 0 t by simp
next
  case (Suc m)
  show ?case
  proof (cases "distance a b < minDist gridW gridH")
    case False
    then have "retry_spawns rnd gr gridW gridH tries a b k = Inr (a, b, tries, k)"
      by (subst retry_spawns.simps) simp
    then show ?thesis using Suc.prems False by simp
  next
    case True
    from Suc.hyps(2) have lt: "tries < 200" by simp
    from pickRandomCell_empty_at[OF r e, of rnd k "leftTopTest gridW gridH" 500]
    obtain a1 k1 where p1: "pickRandomCell rnd k gr (leftTopTest gridW gridH) 500 = Inr (a1, k1)"
      "empty_at gr a1" by blast
    from pickRandomCell_empty_at[OF r e, of rnd k1 "rightBottomTest gridW gridH" 500]
    obtain b1 k2 where p2: "pickRandomCell rnd k1 gr (rightBottomTest gridW gridH) 500 = Inr (b1, k2)"
      "empty_at gr b1" by blast
    have step: "retry_spawns rnd gr gridW gridH tries a b k =
                retry_spawns rnd gr gridW gridH (tries + 1) a1 b1 k2"
      by (subst retry_spawns.simps) (simp add: True lt p1(1) p2(1))
    have "m = 200 - (tries + 1)" using Suc.hyps(2) by simp
    moreover have "tries + 1 \<le> 200" using lt by simp
    ultimately show ?thesis
      unfolding step using p1(2) p2(2) by (rule Suc.hyps(1))
  qed
qed

lemma placeSpawns_spec:
  assumes r: "rect (grid mz) h w" and wd: "width mz = int w" "height mz = int h"
    and e: "empties (grid mz) \<noteq> {}"
  shows "\<exists>a b tries k'. placeSpawns rnd k mz = Inr (a, b, tries, k') \<and>
           empty_at (grid mz) a \<and> empty_at (grid mz) b \<and>
           (minDist (width mz) (height mz) \<le> distance a b \<or>
            tries = 200 \<and>
            (\<forall>t. empty_at (grid mz) t \<longrightarrow> distance a t \<le> distance a b) \<and>
            (\<forall>t. empty_at (grid mz) t \<and> scans_before t b \<longrightarrow> distance a t < distance a b))"
proof -
  define gr where "gr = grid mz"
  note r' = r[folded gr_def] and e' = e[folded gr_def]
  from pickRandomCell_empty_at[OF r' e', of rnd k "leftTopTest (int w) (int h)" 500]
  obtain a0 k1 where p1: "pickRandomCell rnd k gr (leftTopTest (int w) (int h)) 500 = Inr (a0, k1)"
    "empty_at gr a0" by blast
  from pickRandomCell_empty_at[OF r' e', of rnd k1 "rightBottomTest (int w) (int h)" 500]
  obtain b0 k2 where p2: "pickRandomCell rnd k1 gr (rightBottomTest (int w) (int h)) 500 = Inr (b0, k2)"
    "empty_at gr b0" by blast
  from retry_spawns_spec[OF r' e' _ p1(2) p2(2), of 0 rnd "int w" "int h" k2]
  obtain a b tries k3 where rs: "retry_spawns rnd gr (int w) (int h) 0 a0 b0 k2 = Inr (a, b, tries, k3)"
    "empty_at gr a" "empty_at gr b" "distance a b < minDist (int w) (int h) \<longrightarrow> tries = 200"
    by auto
  show ?thesis
  proof (cases "distance a b < minDist (int w) (int h)")
    case False
    have "placeSpawns rnd k mz = Inr (a, b, tries, k3)"
      unfolding placeSpawns_def Let_def gr_def[symmetric] wd
      using p1(1) p2(1) rs(1) False by simp
    then show ?thesis using rs(2,3) False by (auto simp: wd gr_def)
  next
    case True
    from farthest_spec[OF r' subset_refl sorted_scan_order, of a a "-1"]
    obtain best bestD where f: "farthest gr a (scan_order h w) (a, -1) = Inr (best, bestD)"
      "\<forall>c \<in> set (scan_order h w). empty_at gr c \<longrightarrow> distance a c \<le> bestD"
      "(best, bestD) = (a, -1) \<or>
       best \<in> set (scan_order h w) \<and> empty_at gr best \<and> bestD = distance a best \<and> -1 < bestD \<and>
       (\<forall>c \<in> set (scan_order h w). empty_at gr c \<and> scans_before c best \<longrightarrow> distance a c < bestD)"
      by blast
    have "\<not> (best, bestD) = (a, -1)"
    proof
      assume "(best, bestD) = (a, -1)"
      then have "bestD = -1" by simp
      moreover have "distance a a \<le> bestD"
        using f(2) rs(2) empty_at_bounds[OF r' rs(2)] by blast
      ultimately show False using distance_nonneg[of a a] by simp
    qed
    with f(3) have g: "empty_at gr best" "bestD = distance a best"
      "\<forall>c \<in> set (scan_order h w). empty_at gr c \<and> scans_before c best \<longrightarrow> distance a c < bestD"
      by blast+
    have run: "placeSpawns rnd k mz = Inr (a, best, tries, k3)"
      unfolding placeSpawns_def Let_def gr_def[symmetric] wd
      using p1(1) p2(1) rs(1) True f(1) by simp
    have mx: "\<forall>t. empty_at gr t \<longrightarrow> distance a t \<le> distance a best"
      using f(2) g(2) empty_at_bounds[OF r'] by blast
    have fs: "\<forall>t. empty_at gr t \<and> scans_before t best \<longrightarrow> distance a t < distance a best"
      using g(3,2) empty_at_bounds[OF r'] by blast
    show ?thesis
      using run rs(2) g(1) rs(4) True mx fs by (auto simp: gr_def)
  qed
qed


lemma distance_less_minDist_iff:
  "distance a b < minDist gridW gridH \<longleftrightarrow>
     0 < max gridW gridH \<and>
     400 * ((fst a - fst b) * (fst a - fst b) + (snd a - snd b) * (snd a - snd b))
       < 81 * (max gridW gridH * max gridW gridH)"
proof -
  define d2 where "d2 = (fst a - fst b) * (fst a - fst b) + (snd a - snd b) * (snd a - snd b)"
  define m where "m = max gridW gridH"
  have d: "distance a b = sqrt (real_of_int d2)" by (simp add: distance_def d2_def Let_def)
  have md: "minDist gridW gridH = real_of_int m * 0.45" by (simp add: minDist_def m_def)
  have d2nn: "0 \<le> d2" by (simp add: d2_def)
  show ?thesis
    unfolding d md d2_def[symmetric] m_def[symmetric]
  proof (cases "0 < m")
    case False
    then have "real_of_int m * 0.45 \<le> 0" by (simp add: mult_le_0_iff)
    moreover have "0 \<le> sqrt (real_of_int d2)" using d2nn by simp
    ultimately show "sqrt (real_of_int d2) < real_of_int m * 0.45 \<longleftrightarrow> 0 < m \<and> 400 * d2 < 81 * (m * m)"
      using False by linarith
  next
    case True
    then have pos: "0 \<le> real_of_int m * 0.45" by simp
    have "sqrt (real_of_int d2) < real_of_int m * 0.45 \<longleftrightarrow>
          real_of_int d2 < (real_of_int m * 0.45)\<^sup>2"
      using pos d2nn by (metis of_int_0_le_iff real_sqrt_less_iff real_sqrt_abs abs_of_nonneg)
    also have "\<dots> \<longleftrightarrow> 400 * real_of_int d2 < 81 * (real_of_int m * real_of_int m)"
      by (simp add: power2_eq_square field_simps)
    also have "\<dots> \<longleftrightarrow> real_of_int (400 * d2) < real_of_int (81 * (m * m))"
      by simp
    also have "\<dots> \<longleftrightarrow> 400 * d2 < 81 * (m * m)"
      by (rule of_int_less_iff)
    finally show "sqrt (real_of_int d2) < real_of_int m * 0.45 \<longleftrightarrow> 0 < m \<and> 400 * d2 < 81 * (m * m)"
      using True by simp
  qed
qed

lemma generated_spawns:
  assumes "1 \<le> n" and "n * n \<le> stack"
  shows "\<exists>mz k1 a b tries k2.
           generateMaze stack rnd k n = Inr (mz, k1) \<and>
           placeSpawns rnd k1 mz = Inr (a, b, tries, k2) \<and>
           rect (grid mz) (2 * n + 1) (2 * n + 1) \<and>
           width mz = int (2 * n + 1) \<and> height mz = int (2 * n + 1) \<and>
           empty_at (grid mz) a \<and> empty_at (grid mz) b \<and>
           (minDist (width mz) (height mz) \<le> distance a b \<or>
            tries = 200 \<and>
            (\<forall>t. empty_at (grid mz) t \<longrightarrow> distance a t \<le> distance a b) \<and>
            (\<forall>t. empty_at (grid mz) t \<and> scans_before t b \<longrightarrow> distance a t < distance a b))"
proof -
  from assms have n: "0 < n" by simp
  from generateMaze_carved[OF n assms(2), of rnd k] obtain s' :: mstate where
    run: "generateMaze stack rnd k n =
            Inr (\<lparr>grid = g s', width = int (2 * n + 1), height = int (2 * n + 1)\<rparr>, draws s')"
    and c: "carved n (g s') (visited s')" and all: "marked (visited s') = cells n"
    by blast
  define mz where "mz = \<lparr>grid = g s', width = int (2 * n + 1), height = int (2 * n + 1)\<rparr>"
  from c have A: "\<And>x y. x < n \<Longrightarrow> y < n \<Longrightarrow> ((2 * x + 1, 2 * y + 1) \<in> empties (g s') \<longleftrightarrow> (x, y) \<in> marked (visited s'))"
    and rg: "rect (g s') (2 * n + 1) (2 * n + 1)"
    unfolding carved_def by blast+
  have "(0, 0) \<in> marked (visited s')" using n all by (simp add: cells_def)
  with A[OF n n] have "(1, 1) \<in> empties (g s')" by simp
  then have e: "empties (grid mz) \<noteq> {}" by (auto simp: mz_def)
  have r: "rect (grid mz) (2 * n + 1) (2 * n + 1)" using rg by (simp add: mz_def)
  have wd: "width mz = int (2 * n + 1)" "height mz = int (2 * n + 1)" by (simp_all add: mz_def)
  from placeSpawns_spec[OF r wd e, of rnd "draws s'"] run r wd
  show ?thesis unfolding mz_def[symmetric] by blast
qed

























section \<open>Matchmaking, rooms and teardown\<close>

definition joined :: "sid \<Rightarrow> sid list \<Rightarrow> sid list" where
  "joined s l = (if s \<in> set l then l else l @ [s])"

lemma joined_mem: "s \<in> set (joined s l)" "set l \<subseteq> set (joined s l)"
  by (auto simp: joined_def)

definition started :: string where
  "started = ''Game started '' @ [CHR 0xE2, CHR 0x80, CHR 0x94] @ '' reach the glowing exit!''"

text \<open>The state after \<open>ws\<close> and \<open>s\<close> have been paired at \<open>now\<close> in the maze \<open>mz\<close> with the spawns
  \<open>a\<close> and \<open>b\<close>, \<open>k\<close> random numbers drawn.\<close>

definition paired :: "server \<Rightarrow> sid \<Rightarrow> sid \<Rightarrow> nat \<Rightarrow> maze \<Rightarrow> int \<times> int \<Rightarrow> int \<times> int \<Rightarrow> nat \<Rightarrow> server" where
  "paired st ws s now mz a b k =
     (let roomId = makeRoomId ws s now;
          to = joined s (joined ws (members st roomId))
      in \<lparr>waitingSocket = None,
          rooms = AList.update roomId
                    \<lparr>maze = mz,
                     players =
                       [(ws, \<lparr>pid = ws, px = fst a, py = snd a, color = ''#34ff72'',
                               exitX = fst b, exitY = snd b\<rparr>),
                        (s, \<lparr>pid = s, px = fst b, py = snd b, color = ''#ff4d9e'',
                              exitX = fst a, exitY = snd a\<rparr>)]\<rparr>
                    (rooms st),
          members = (members st)(roomId := to),
          timers = timers st,
          calls = k,
          outbox = outbox st @
            [(to, MatchFound roomId (grid mz) (width mz) (height mz)
                    [(ws, (fst a, snd a, ''#34ff72'', fst b, snd b)),
                     (s, (fst b, snd b, ''#ff4d9e'', fst a, snd a))]),
             (to, Status started)]\<rparr>)"

lemma findMatch_paired:
  assumes "waitingSocket st = Some ws" "ws \<noteq> s"
    and "generateMaze stack rnd (calls st) MAZE_LOGICAL = Inr (mz, k1)"
    and "placeSpawns rnd k1 mz = Inr (a, b, tries, k2)"
  shows "findMatch stack rnd now s st = Inr (paired st ws s now mz a b k2)"
  unfolding findMatch_def paired_def
  using assms
  by (cases st) (simp add: Let_def join_def emit_room_def view_def joined_def started_def)

lemma findMatch_pairs:
  assumes w: "waitingSocket st = Some ws" "ws \<noteq> s"
    and stk: "MAZE_LOGICAL * MAZE_LOGICAL \<le> stack"
  shows "\<exists>mz k1 a b tries k2.
           generateMaze stack rnd (calls st) MAZE_LOGICAL = Inr (mz, k1) \<and>
           placeSpawns rnd k1 mz = Inr (a, b, tries, k2) \<and>
           rect (grid mz) 15 15 \<and> width mz = 15 \<and> height mz = 15 \<and>
           empty_at (grid mz) a \<and> empty_at (grid mz) b \<and>
           findMatch stack rnd now s st = Inr (paired st ws s now mz a b k2)"
proof -
  have n: "1 \<le> MAZE_LOGICAL" by (simp add: MAZE_LOGICAL_def)
  from generated_spawns[OF n stk, of rnd "calls st"] obtain mz k1 a b tries k2 where
    g: "generateMaze stack rnd (calls st) MAZE_LOGICAL = Inr (mz, k1)"
      "placeSpawns rnd k1 mz = Inr (a, b, tries, k2)"
      "rect (grid mz) (2 * MAZE_LOGICAL + 1) (2 * MAZE_LOGICAL + 1)"
      "width mz = int (2 * MAZE_LOGICAL + 1)" "height mz = int (2 * MAZE_LOGICAL + 1)"
      "empty_at (grid mz) a" "empty_at (grid mz) b"
    by blast
  have run: "findMatch stack rnd now s st = Inr (paired st ws s now mz a b k2)"
    using w g(1,2) by (rule findMatch_paired)
  have g': "rect (grid mz) 15 15" "width mz = 15" "height mz = 15"
    using g(3-5) by (simp_all add: MAZE_LOGICAL_def)
  show ?thesis using g(1,2) g' g(6,7) run by blast
qed


text \<open>
  Claim C5. A match request from \<open>s\<close>: with nobody pending, \<open>s\<close> becomes the pending
  participant and is sent the waiting status; with \<open>s\<close> itself pending, \<open>s\<close> is sent the
  still-waiting status and nothing else changes (the pending slot, the rooms, the timers);
  with another participant \<open>ws\<close> pending, a room with exactly the players \<open>ws\<close> and \<open>s\<close> is
  registered and the pending slot is cleared.
\<close>

theorem findMatch_cases:
  "(waitingSocket st = None \<longrightarrow>
      findMatch stack rnd now s st =
        Inr (st\<lparr>waitingSocket := Some s,
                outbox := outbox st @ [([s], Status ''Waiting for an opponent...'')]\<rparr>)) \<and>
   (waitingSocket st = Some s \<longrightarrow>
      findMatch stack rnd now s st =
        Inr (st\<lparr>outbox := outbox st @ [([s], Status ''Still waiting...'')]\<rparr>)) \<and>
   (\<forall>ws. waitingSocket st = Some ws \<and> ws \<noteq> s \<and> MAZE_LOGICAL * MAZE_LOGICAL \<le> stack \<longrightarrow>
      (\<exists>st' r. findMatch stack rnd now s st = Inr st' \<and>
         waitingSocket st' = None \<and>
         map_of (rooms st') (makeRoomId ws s now) = Some r \<and>
         map fst (players r) = [ws, s]))"
proof (intro conjI impI allI)
  assume "waitingSocket st = None"
  then show "findMatch stack rnd now s st =
        Inr (st\<lparr>waitingSocket := Some s,
                outbox := outbox st @ [([s], Status ''Waiting for an opponent...'')]\<rparr>)"
    by (simp add: findMatch_def emit_socket_def)
next
  assume "waitingSocket st = Some s"
  then show "findMatch stack rnd now s st =
        Inr (st\<lparr>outbox := outbox st @ [([s], Status ''Still waiting...'')]\<rparr>)"
    by (simp add: findMatch_def emit_socket_def)
next
  fix ws
  assume a: "waitingSocket st = Some ws \<and> ws \<noteq> s \<and> MAZE_LOGICAL * MAZE_LOGICAL \<le> stack"
  then have w: "waitingSocket st = Some ws" "ws \<noteq> s" and stk: "MAZE_LOGICAL * MAZE_LOGICAL \<le> stack"
    by simp_all
  from findMatch_pairs[OF w stk, of rnd now] obtain mz a b k2 where
    run: "findMatch stack rnd now s st = Inr (paired st ws s now mz a b k2)"
    by blast
  have "waitingSocket (paired st ws s now mz a b k2) = None"
    by (simp add: paired_def Let_def)
  moreover have "\<exists>r. map_of (rooms (paired st ws s now mz a b k2)) (makeRoomId ws s now) = Some r \<and>
                map fst (players r) = [ws, s]"
    by (simp add: paired_def Let_def AList.update_conv')
  ultimately show "\<exists>st' r. findMatch stack rnd now s st = Inr st' \<and>
         waitingSocket st' = None \<and>
         map_of (rooms st') (makeRoomId ws s now) = Some r \<and>
         map fst (players r) = [ws, s]"
    using run by auto
qed

theorem findMatch_cases_witness:
  "findMatch 49 (\<lambda>_. 0) 0 ''A'' init =
     Inr (init\<lparr>waitingSocket := Some ''A'',
               outbox := [([''A''], Status ''Waiting for an opponent...'')]\<rparr>) \<and>
   findMatch 49 (\<lambda>_. 0) 1 ''A''
       (init\<lparr>waitingSocket := Some ''A'', outbox := [([''A''], Status ''Waiting for an opponent...'')]\<rparr>) =
     Inr (init\<lparr>waitingSocket := Some ''A'',
               outbox := [([''A''], Status ''Waiting for an opponent...''),
                          ([''A''], Status ''Still waiting...'')]\<rparr>) \<and>
   (\<exists>st' r. findMatch 49 (\<lambda>_. 0) 2 ''B''
               (init\<lparr>waitingSocket := Some ''A'',
                      outbox := [([''A''], Status ''Waiting for an opponent...'')]\<rparr>) = Inr st' \<and>
            waitingSocket st' = None \<and>
            map_of (rooms st') (makeRoomId ''A'' ''B'' 2) = Some r \<and>
            map fst (players r) = [''A'', ''B''])"
proof -
  define st1 where
    "st1 = init\<lparr>waitingSocket := Some ''A'', outbox := [([''A''], Status ''Waiting for an opponent...'')]\<rparr>"
  have w0: "waitingSocket init = None" by (simp add: init_def)
  have w1: "waitingSocket st1 = Some ''A''" by (simp add: st1_def)
  have ne: "''A'' \<noteq> ''B''" by simp
  have stk: "MAZE_LOGICAL * MAZE_LOGICAL \<le> 49" by (simp add: MAZE_LOGICAL_def)
  have a: "findMatch 49 (\<lambda>_. 0) 0 ''A'' init = Inr st1"
    using findMatch_cases[of init 49 "\<lambda>_. 0" 0 "''A''", THEN conjunct1, THEN mp, OF w0]
    by (simp add: st1_def init_def)
  have b: "findMatch 49 (\<lambda>_. 0) 1 ''A'' st1 =
      Inr (init\<lparr>waitingSocket := Some ''A'',
               outbox := [([''A''], Status ''Waiting for an opponent...''),
                          ([''A''], Status ''Still waiting...'')]\<rparr>)"
    using findMatch_cases[of st1 49 "\<lambda>_. 0" 1 "''A''", THEN conjunct2, THEN conjunct1, THEN mp, OF w1]
    by (simp add: st1_def init_def)
  have c: "\<exists>st' r. findMatch 49 (\<lambda>_. 0) 2 ''B'' st1 = Inr st' \<and> waitingSocket st' = None \<and>
            map_of (rooms st') (makeRoomId ''A'' ''B'' 2) = Some r \<and>
            map fst (players r) = [''A'', ''B'']"
    using findMatch_cases[of st1 49 "\<lambda>_. 0" 2 "''B''", THEN conjunct2, THEN conjunct2,
        THEN spec, of "''A''", THEN mp, OF conjI[OF w1 conjI[OF ne stk]]] .
  show ?thesis using a b c unfolding st1_def by (intro conjI)
qed

text \<open>Socket \<open>s\<close> is a player of the registered room \<open>k\<close>.\<close>

definition plays_in :: "server \<Rightarrow> sid \<Rightarrow> rid \<Rightarrow> bool" where
  "plays_in st s k \<longleftrightarrow> (\<exists>r. map_of (rooms st) k = Some r \<and> map_of (players r) s \<noteq> None)"

lemma fold_leave:
  "fold (\<lambda>p st'. leave p k st') ps st =
     st\<lparr>members := (members st)(k := filter (\<lambda>q. q \<notin> set ps) (members st k))\<rparr>"
proof (induction ps arbitrary: st)
  case Nil
  show ?case by simp
next
  case (Cons p ps)
  have "filter (\<lambda>q. q \<notin> set ps) (removeAll p (members st k)) =
        filter (\<lambda>q. q \<notin> set (p # ps)) (members st k)"
    by (simp add: removeAll_filter_not_eq) (rule filter_cong, auto)
  then have e: "(leave p k st)\<lparr>members := (members (leave p k st))
                (k := filter (\<lambda>q. q \<notin> set ps) (members (leave p k st) k))\<rparr> =
        st\<lparr>members := (members st)(k := filter (\<lambda>q. q \<notin> set (p # ps)) (members st k))\<rparr>"
    by (simp add: leave_def)
  have "fold (\<lambda>p st'. leave p k st') (p # ps) st = fold (\<lambda>p st'. leave p k st') ps (leave p k st)"
    by simp
  also note Cons.IH[of "leave p k st"]
  also note e
  finally show ?case .
qed

lemma disconnect_rooms_spec:
  "distinct ks \<Longrightarrow>
   (\<forall>k. map_of (rooms (disconnect_rooms s ks st)) k =
        (if k \<in> set ks \<and> plays_in st s k then None else map_of (rooms st) k)) \<and>
   outbox (disconnect_rooms s ks st) =
     outbox st @ map (\<lambda>k. (members st k, OpponentDisconnected)) (filter (plays_in st s) ks) \<and>
   waitingSocket (disconnect_rooms s ks st) = waitingSocket st \<and>
   timers (disconnect_rooms s ks st) = timers st \<and>
   (\<forall>k. \<not> (k \<in> set ks \<and> plays_in st s k) \<longrightarrow> members (disconnect_rooms s ks st) k = members st k) \<and>
   (distinct (map fst (rooms st)) \<longrightarrow> distinct (map fst (rooms (disconnect_rooms s ks st))))"
proof (induction ks arbitrary: st)
  case Nil
  show ?case by simp
next
  case (Cons k ks)
  from Cons.prems have kn: "k \<notin> set ks" and d: "distinct ks" by simp_all
  show ?case
  proof (cases "plays_in st s k")
    case False
    then have step: "disconnect_rooms s (k # ks) st = disconnect_rooms s ks st"
      by (auto simp: plays_in_def split: option.splits)
    show ?thesis
      unfolding step using Cons.IH[OF d, of st] False by auto
  next
    case True
    then obtain r where r: "map_of (rooms st) k = Some r" "map_of (players r) s \<noteq> None"
      by (auto simp: plays_in_def)
    define st3 where "st3 = st\<lparr>outbox := outbox st @ [(members st k, OpponentDisconnected)],
        members := (members st)(k := filter (\<lambda>q. q \<notin> set (map fst (players r))) (members st k)),
        rooms := AList.delete k (rooms st)\<rparr>"
    have step: "disconnect_rooms s (k # ks) st = disconnect_rooms s ks st3"
      using r by (simp add: Let_def fold_leave emit_room_def st3_def)
    have same: "plays_in st3 s k' = plays_in st s k'" if "k' \<noteq> k" for k'
      using that by (simp add: plays_in_def st3_def)
    have gone: "map_of (rooms st3) k = None"
      by (simp add: st3_def AList.delete_conv')
    have nk: "\<not> plays_in st3 s k" using gone by (simp add: plays_in_def)
    have flt: "filter (plays_in st3 s) ks = filter (plays_in st s) ks"
    proof (rule filter_cong[OF refl])
      fix x assume "x \<in> set ks"
      with kn have "x \<noteq> k" by auto
      then show "plays_in st3 s x = plays_in st s x" by (rule same)
    qed
    have mp: "map (\<lambda>k. (members st3 k, OpponentDisconnected)) (filter (plays_in st s) ks) =
              map (\<lambda>k. (members st k, OpponentDisconnected)) (filter (plays_in st s) ks)"
      using kn by (intro map_cong) (auto simp: st3_def)
    note ih = Cons.IH[OF d, of st3]
    have a: "map_of (rooms (disconnect_rooms s ks st3)) k' =
        (if k' \<in> set (k # ks) \<and> plays_in st s k' then None else map_of (rooms st) k')" for k'
    proof (cases "k' = k")
      case True
      then show ?thesis using ih kn gone \<open>plays_in st s k\<close> by simp
    next
      case False
      then show ?thesis using ih same[OF False] by (simp add: st3_def)
    qed
    have b: "outbox (disconnect_rooms s ks st3) =
       outbox st @ map (\<lambda>k. (members st k, OpponentDisconnected)) (filter (plays_in st s) (k # ks))"
      using ih flt mp True by (simp add: st3_def)
    have c: "waitingSocket (disconnect_rooms s ks st3) = waitingSocket st"
      "timers (disconnect_rooms s ks st3) = timers st"
      using ih by (simp_all add: st3_def)
    have e: "members (disconnect_rooms s ks st3) k' = members st k'"
      if "\<not> (k' \<in> set (k # ks) \<and> plays_in st s k')" for k'
    proof -
      from that True have ne: "k' \<noteq> k" by auto
      with that same[OF ne] have "\<not> (k' \<in> set ks \<and> plays_in st3 s k')" by simp
      with ih have "members (disconnect_rooms s ks st3) k' = members st3 k'" by blast
      then show ?thesis using ne by (simp add: st3_def)
    qed
    have f: "distinct (map fst (rooms st)) \<longrightarrow> distinct (map fst (rooms (disconnect_rooms s ks st3)))"
      using ih by (simp add: st3_def AList.distinct_delete)
    show ?thesis
      unfolding step using a b c e f by blast
  qed
qed

text \<open>Every room is registered once, and its players have joined its socket.io room.\<close>

definition consistent :: "server \<Rightarrow> bool" where
  "consistent st \<longleftrightarrow>
     distinct (map fst (rooms st)) \<and>
     (\<forall>k r. map_of (rooms st) k = Some r \<longrightarrow> fst ` set (players r) \<subseteq> set (members st k))"

lemma disconnect_spec:
  assumes d: "distinct (map fst (rooms st))"
  shows "map_of (rooms (disconnect s st)) k = (if plays_in st s k then None else map_of (rooms st) k)"
    and "outbox (disconnect s st) =
           outbox st @ map (\<lambda>k. (removeAll s (members st k), OpponentDisconnected))
                         (filter (plays_in st s) (map fst (rooms st)))"
    and "waitingSocket (disconnect s st) = (if waitingSocket st = Some s then None else waitingSocket st)"
    and "timers (disconnect s st) = timers st"
    and "\<not> plays_in st s k \<Longrightarrow> members (disconnect s st) k = removeAll s (members st k)"
    and "distinct (map fst (rooms (disconnect s st)))"
proof -
  define st1 where "st1 = st\<lparr>members := (\<lambda>roomId. removeAll s (members st roomId)),
      waitingSocket := (if waitingSocket st = Some s then None else waitingSocket st)\<rparr>"
  have dis: "disconnect s st = disconnect_rooms s (map fst (rooms st)) st1"
    by (simp add: disconnect_def Let_def st1_def)
  have pl: "plays_in st1 s = plays_in st s"
    by (simp add: plays_in_def st1_def fun_eq_iff)
  have sel: "rooms st1 = rooms st" "outbox st1 = outbox st" "timers st1 = timers st"
    "members st1 = (\<lambda>roomId. removeAll s (members st roomId))"
    "waitingSocket st1 = (if waitingSocket st = Some s then None else waitingSocket st)"
    by (simp_all add: st1_def)
  note sp = disconnect_rooms_spec[OF d, of s st1, folded dis, unfolded pl sel]
  have "map_of (rooms st) k = None" if "k \<notin> set (map fst (rooms st))"
    using that by (simp add: map_of_eq_None_iff)
  then show "map_of (rooms (disconnect s st)) k = (if plays_in st s k then None else map_of (rooms st) k)"
    using sp by (cases "k \<in> set (map fst (rooms st))") auto
  show "outbox (disconnect s st) =
           outbox st @ map (\<lambda>k. (removeAll s (members st k), OpponentDisconnected))
                         (filter (plays_in st s) (map fst (rooms st)))"
    using sp by blast
  show "waitingSocket (disconnect s st) = (if waitingSocket st = Some s then None else waitingSocket st)"
    using sp by blast
  show "timers (disconnect s st) = timers st" using sp by blast
  show "\<not> plays_in st s k \<Longrightarrow> members (disconnect s st) k = removeAll s (members st k)"
    using sp by blast
  show "distinct (map fst (rooms (disconnect s st)))" using sp d by blast
qed


lemma consistent_init: "consistent init"
  by (simp add: consistent_def init_def)

lemma consistent_findMatch:
  assumes c: "consistent st" and run: "findMatch stack rnd now s st = Inr st'"
  shows "consistent st'"
proof (cases "waitingSocket st")
  case None
  with run have "st' = emit_socket s (Status ''Waiting for an opponent...'') (st\<lparr>waitingSocket := Some s\<rparr>)"
    by (simp add: findMatch_def)
  then show ?thesis using c by (simp add: consistent_def emit_socket_def)
next
  case (Some ws)
  show ?thesis
  proof (cases "ws = s")
    case True
    with run Some have "st' = emit_socket s (Status ''Still waiting...'') st"
      by (simp add: findMatch_def)
    then show ?thesis using c by (simp add: consistent_def emit_socket_def)
  next
    case False
    from run Some False obtain mz k1 a b tries k2 where
      g: "generateMaze stack rnd (calls st) MAZE_LOGICAL = Inr (mz, k1)"
        "placeSpawns rnd k1 mz = Inr (a, b, tries, k2)"
      by (auto simp: findMatch_def Let_def split: sum.splits)
    have "findMatch stack rnd now s st = Inr (paired st ws s now mz a b k2)"
      using Some False g by (rule findMatch_paired)
    with run have st': "st' = paired st ws s now mz a b k2" by simp
    from c have d: "distinct (map fst (rooms st))"
      and m: "\<And>k r. map_of (rooms st) k = Some r \<Longrightarrow> fst ` set (players r) \<subseteq> set (members st k)"
      unfolding consistent_def by blast+
    have j: "ws \<in> set (joined s (joined ws (members st (makeRoomId ws s now))))"
      "s \<in> set (joined s (joined ws (members st (makeRoomId ws s now))))"
      by (auto simp: joined_def)
    show ?thesis
      unfolding st' consistent_def paired_def Let_def
      using d m j
      by (auto simp: AList.distinct_update AList.update_conv' split: if_splits)
  qed
qed

text \<open>The state after the player \<open>p\<close> of socket \<open>s\<close> in room \<open>r\<close> has stepped to \<open>(nx, ny)\<close>, and
  after the win that follows when this is its exit.\<close>

definition stepped :: "server \<Rightarrow> sid \<Rightarrow> rid \<Rightarrow> room \<Rightarrow> player \<Rightarrow> int \<Rightarrow> int \<Rightarrow> server" where
  "stepped st s roomId r p nx ny =
     st\<lparr>rooms := AList.update roomId
                   (r\<lparr>players := AList.update s (p\<lparr>px := nx, py := ny\<rparr>) (players r)\<rparr>) (rooms st),
        outbox := outbox st @
          [(members st roomId,
            State (map (\<lambda>(i, q). (i, view q)) (AList.update s (p\<lparr>px := nx, py := ny\<rparr>) (players r))))]\<rparr>"

definition won :: "server \<Rightarrow> sid \<Rightarrow> rid \<Rightarrow> room \<Rightarrow> player \<Rightarrow> nat \<Rightarrow> server" where
  "won st s roomId r p now =
     st\<lparr>outbox := outbox st @
          [(members st roomId, GameOver s (color p)),
           (members st roomId, RevealMaze (grid (maze r)))],
        timers := timers st @ [(now + 4500, roomId)]\<rparr>"

text \<open>The move is legal: the room and the player exist, the direction is one of the four,
  and the tile it leads to is inside the maze and not a wall.\<close>

definition legal :: "server \<Rightarrow> sid \<Rightarrow> rid \<Rightarrow> string \<Rightarrow> room \<Rightarrow> player \<Rightarrow> int \<Rightarrow> int \<Rightarrow> bool" where
  "legal st s roomId dir r p nx ny \<longleftrightarrow>
     map_of (rooms st) roomId = Some r \<and> map_of (players r) s = Some p \<and>
     deltas dir = Delta (nx - px p) (ny - py p) \<and>
     0 \<le> nx \<and> 0 \<le> ny \<and> nx < width (maze r) \<and> ny < height (maze r) \<and>
     (\<exists>t. at2 (grid (maze r)) ny nx = Inr t \<and> t \<noteq> Some TILE_WALL)"

lemma move_legal:
  assumes "legal st s roomId dir r p nx ny"
  shows "move now s roomId dir st =
           Inr (if nx = exitX p \<and> ny = exitY p
                then won (stepped st s roomId r p nx ny) s roomId r p now
                else stepped st s roomId r p nx ny)"
proof -
  from assms obtain t where
    a: "map_of (rooms st) roomId = Some r" "map_of (players r) s = Some p"
      "deltas dir = Delta (nx - px p) (ny - py p)"
      "\<not> (nx < 0 \<or> ny < 0 \<or> nx \<ge> width (maze r) \<or> ny \<ge> height (maze r))"
      "at2 (grid (maze r)) ny nx = Inr t" "t \<noteq> Some TILE_WALL"
    unfolding legal_def by auto
  show ?thesis
    unfolding move_def
    by (simp add: a Let_def stepped_def won_def emit_room_def setTimeout_def)
qed

lemma move_result:
  assumes "move now s roomId dir st = Inr st'"
  shows "st' = st \<or>
         (\<exists>r p nx ny. legal st s roomId dir r p nx ny \<and>
            st' = (if nx = exitX p \<and> ny = exitY p
                   then won (stepped st s roomId r p nx ny) s roomId r p now
                   else stepped st s roomId r p nx ny))"
proof (cases "map_of (rooms st) roomId")
  case None
  with assms show ?thesis by (auto simp: move_def split: if_splits)
next
  case r: (Some r)
  show ?thesis
  proof (cases "map_of (players r) s")
    case None
    with assms r show ?thesis by (simp add: move_def)
  next
    case p: (Some p)
    show ?thesis
    proof (cases "deltas dir")
      case Undefined
      with assms r p show ?thesis by (simp add: move_def)
    next
      case Inherited
      with assms r p show ?thesis by (simp add: move_def)
    next
      case (Delta d0 d1)
      define nx where "nx = px p + d0"
      define ny where "ny = py p + d1"
      show ?thesis
      proof (cases "nx < 0 \<or> ny < 0 \<or> nx \<ge> width (maze r) \<or> ny \<ge> height (maze r)")
        case True
        with assms r p Delta show ?thesis
          by (simp add: move_def Let_def nx_def ny_def)
      next
        case inb: False
        show ?thesis
        proof (cases "at2 (grid (maze r)) ny nx")
          case (Inl e)
          with assms r p Delta inb show ?thesis
            by (simp add: move_def Let_def nx_def ny_def)
        next
          case (Inr t)
          show ?thesis
          proof (cases "t = Some TILE_WALL")
            case True
            with assms r p Delta inb Inr show ?thesis
              by (simp add: move_def Let_def nx_def ny_def)
          next
            case False
            have l: "legal st s roomId dir r p nx ny"
              unfolding legal_def using r p Delta inb Inr False
              by (auto simp: nx_def ny_def)
            from move_legal[OF l, of now] assms show ?thesis
              using l by auto
          qed
        qed
      qed
    qed
  qed
qed

lemma consistent_stepped:
  assumes c: "consistent st" and r: "map_of (rooms st) roomId = Some r"
    and p: "map_of (players r) s = Some p"
  shows "consistent (stepped st s roomId r p nx ny)"
proof -
  from c have d: "distinct (map fst (rooms st))"
    and m: "\<And>k r. map_of (rooms st) k = Some r \<Longrightarrow> fst ` set (players r) \<subseteq> set (members st k)"
    unfolding consistent_def by blast+
  from p have "s \<in> fst ` set (players r)"
    by (metis map_of_eq_None_iff option.distinct(1))
  then have k: "fst ` set (AList.update s (p\<lparr>px := nx, py := ny\<rparr>) (players r)) = fst ` set (players r)"
    by (auto simp: AList.dom_update)
  have "fst ` set (players r') \<subseteq> set (members st k')"
    if "map_of (AList.update roomId (r\<lparr>players := AList.update s (p\<lparr>px := nx, py := ny\<rparr>) (players r)\<rparr>) (rooms st)) k' = Some r'"
    for k' r'
  proof (cases "k' = roomId")
    case True
    with that have "r' = r\<lparr>players := AList.update s (p\<lparr>px := nx, py := ny\<rparr>) (players r)\<rparr>"
      by (simp add: AList.update_conv')
    then show ?thesis using k m[OF r] True by simp
  next
    case False
    with that have "map_of (rooms st) k' = Some r'" by (simp add: AList.update_conv')
    then show ?thesis by (rule m)
  qed
  then show ?thesis
    unfolding consistent_def stepped_def using d by (simp add: AList.distinct_update)
qed

lemma consistent_won: "consistent st \<Longrightarrow> consistent (won st s roomId r p now)"
  by (simp add: consistent_def won_def)

lemma consistent_move:
  assumes c: "consistent st" and run: "move now s roomId dir st = Inr st'"
  shows "consistent st'"
proof -
  from move_result[OF run] show ?thesis
  proof
    assume "st' = st"
    then show ?thesis using c by simp
  next
    assume "\<exists>r p nx ny. legal st s roomId dir r p nx ny \<and>
            st' = (if nx = exitX p \<and> ny = exitY p
                   then won (stepped st s roomId r p nx ny) s roomId r p now
                   else stepped st s roomId r p nx ny)"
    then obtain r p nx ny where l: "legal st s roomId dir r p nx ny"
      and st': "st' = (if nx = exitX p \<and> ny = exitY p
                   then won (stepped st s roomId r p nx ny) s roomId r p now
                   else stepped st s roomId r p nx ny)"
      by blast
    from l have "map_of (rooms st) roomId = Some r" "map_of (players r) s = Some p"
      by (simp_all add: legal_def)
    with c have "consistent (stepped st s roomId r p nx ny)" by (rule consistent_stepped)
    then show ?thesis unfolding st' by (auto simp: consistent_won)
  qed
qed

lemma consistent_teardown:
  assumes c: "consistent st"
  shows "consistent (teardown roomId st)"
proof -
  from c have d: "distinct (map fst (rooms st))"
    and m: "\<And>k r. map_of (rooms st) k = Some r \<Longrightarrow> fst ` set (players r) \<subseteq> set (members st k)"
    unfolding consistent_def by blast+
  have "fst ` set (players r) \<subseteq> set (members (teardown roomId st) k)"
    if "map_of (rooms (teardown roomId st)) k = Some r" for k r
  proof -
    from that have ne: "k \<noteq> roomId" and "map_of (rooms st) k = Some r"
      by (auto simp: teardown_def AList.delete_conv' split: if_splits)
    then show ?thesis using m[of k r] by (simp add: teardown_def)
  qed
  moreover have "distinct (map fst (rooms (teardown roomId st)))"
    using d by (simp add: teardown_def AList.distinct_delete)
  ultimately show ?thesis unfolding consistent_def by blast
qed

lemma consistent_fold_teardown:
  "consistent st \<Longrightarrow> consistent (fold (\<lambda>(t, roomId) st'. teardown roomId st') ts st)"
proof (induction ts arbitrary: st)
  case Nil
  then show ?case by simp
next
  case (Cons e ts)
  obtain t k where e: "e = (t, k)" by (cases e)
  from Cons.prems have "consistent (teardown k st)" by (rule consistent_teardown)
  then have "consistent (fold (\<lambda>(t, roomId) st'. teardown roomId st') ts (teardown k st))"
    by (rule Cons.IH)
  then show ?case by (simp add: e)
qed

lemma consistent_run_timers:
  assumes "consistent st"
  shows "consistent (run_timers now st)"
proof -
  from assms have "consistent (st\<lparr>timers := filter (\<lambda>(t, roomId). \<not> t \<le> now) (timers st)\<rparr>)"
    by (simp add: consistent_def)
  then show ?thesis unfolding run_timers_def by (rule consistent_fold_teardown)
qed

lemma consistent_disconnect:
  assumes c: "consistent st"
  shows "consistent (disconnect s st)"
proof -
  from c have d: "distinct (map fst (rooms st))"
    and m: "\<And>k r. map_of (rooms st) k = Some r \<Longrightarrow> fst ` set (players r) \<subseteq> set (members st k)"
    unfolding consistent_def by blast+
  note sp = disconnect_spec[OF d, of s]
  have "fst ` set (players r) \<subseteq> set (members (disconnect s st) k)"
    if r: "map_of (rooms (disconnect s st)) k = Some r" for k r
  proof -
    from r sp(1)[of k] have np: "\<not> plays_in st s k" and r0: "map_of (rooms st) k = Some r"
      by (auto split: if_splits)
    from np r0 have "map_of (players r) s = None" by (simp add: plays_in_def)
    then have "s \<notin> fst ` set (players r)" by (simp add: map_of_eq_None_iff)
    with m[OF r0] show ?thesis unfolding sp(5)[OF np] by auto
  qed
  with sp(6) show ?thesis unfolding consistent_def by blast
qed

lemma consistent_handle:
  "consistent st \<Longrightarrow> handle stack rnd now ev st = Inr st' \<Longrightarrow> consistent st'"
proof (cases ev)
  case (FindMatch s)
  assume "consistent st" "handle stack rnd now ev st = Inr st'"
  then show ?thesis unfolding FindMatch handle.simps by (rule consistent_findMatch)
next
  case (Move s roomId dir)
  assume "consistent st" "handle stack rnd now ev st = Inr st'"
  then show ?thesis unfolding Move handle.simps by (rule consistent_move)
next
  case (Disconnect s)
  assume "consistent st" "handle stack rnd now ev st = Inr st'"
  then show ?thesis using consistent_disconnect[of st s] by (auto simp: Disconnect)
next
  case Timers
  assume "consistent st" "handle stack rnd now ev st = Inr st'"
  then show ?thesis using consistent_run_timers[of st now] by (auto simp: Timers)
qed

lemma consistent_run:
  "consistent st \<Longrightarrow> run stack rnd evs st = Inr st' \<Longrightarrow> consistent st'"
proof (induction evs arbitrary: st)
  case Nil
  then show ?case by simp
next
  case (Cons e evs)
  obtain now ev where e: "e = (now, ev)" by (cases e)
  from Cons.prems(2) obtain st1 where
    h: "handle stack rnd now ev st = Inr st1" and r: "run stack rnd evs st1 = Inr st'"
    by (auto simp: e split: sum.splits)
  from Cons.prems(1) h have "consistent st1" by (rule consistent_handle)
  then show ?case using r by (rule Cons.IH)
qed

text \<open>
  Claim C7. In a state where the players of every registered room have joined its socket.io
  room (every state the handlers reach from the initial one), the disconnection of \<open>s\<close>:
  clears the pending slot when \<open>s\<close> is the pending participant, so that the next request
  of any participant makes it the pending one; removes every room \<open>s\<close> plays in from the
  registry within the handler, setting no timer, after an opponent-disconnected message to
  that room which reaches every other player of it; and leaves the other rooms as they are.
\<close>

theorem disconnect_teardown:
  assumes c: "consistent st"
  shows "(waitingSocket st = Some s \<longrightarrow>
            waitingSocket (disconnect s st) = None \<and>
            (\<forall>s'. \<exists>st'. findMatch stack rnd now s' (disconnect s st) = Inr st' \<and>
                         waitingSocket st' = Some s')) \<and>
         (\<forall>k r. map_of (rooms st) k = Some r \<and> map_of (players r) s \<noteq> None \<longrightarrow>
            map_of (rooms (disconnect s st)) k = None \<and>
            (\<exists>earlier later to.
               outbox (disconnect s st) = outbox st @ earlier @ (to, OpponentDisconnected) # later \<and>
               (\<forall>p \<in> fst ` set (players r). p \<noteq> s \<longrightarrow> p \<in> set to))) \<and>
         timers (disconnect s st) = timers st \<and>
         (\<forall>k. \<not> plays_in st s k \<longrightarrow> map_of (rooms (disconnect s st)) k = map_of (rooms st) k)"
proof (intro conjI impI allI)
  from c have d: "distinct (map fst (rooms st))" by (simp add: consistent_def)
  note sp = disconnect_spec[OF d, of s]
  {
    assume w: "waitingSocket st = Some s"
    then show w': "waitingSocket (disconnect s st) = None" using sp(3) by simp
    fix s'
    show "\<exists>st'. findMatch stack rnd now s' (disconnect s st) = Inr st' \<and> waitingSocket st' = Some s'"
      using w' by (simp add: findMatch_def emit_socket_def)
  }
  show "timers (disconnect s st) = timers st" by (rule sp(4))
  {
    fix k assume "\<not> plays_in st s k"
    then show "map_of (rooms (disconnect s st)) k = map_of (rooms st) k" using sp(1)[of k] by simp
  }
  {
    fix k r assume a: "map_of (rooms st) k = Some r \<and> map_of (players r) s \<noteq> None"
    then have pl: "plays_in st s k" by (auto simp: plays_in_def)
    then show "map_of (rooms (disconnect s st)) k = None" using sp(1)[of k] by simp
    from a have "k \<in> set (map fst (rooms st))"
      by (metis map_of_eq_None_iff option.distinct(1) set_map)
    with pl have "k \<in> set (filter (plays_in st s) (map fst (rooms st)))" by simp
    then obtain ys zs where sp2: "filter (plays_in st s) (map fst (rooms st)) = ys @ k # zs"
      by (auto dest: split_list)
    let ?f = "\<lambda>k. (removeAll s (members st k), OpponentDisconnected)"
    have ob: "outbox (disconnect s st) =
        outbox st @ map ?f ys @ (removeAll s (members st k), OpponentDisconnected) # map ?f zs"
      unfolding sp(2) sp2 by simp
    from c a have "fst ` set (players r) \<subseteq> set (members st k)"
      unfolding consistent_def by blast
    then have "\<forall>p \<in> fst ` set (players r). p \<noteq> s \<longrightarrow> p \<in> set (removeAll s (members st k))"
      by auto
    with ob show "\<exists>earlier later to.
               outbox (disconnect s st) = outbox st @ earlier @ (to, OpponentDisconnected) # later \<and>
               (\<forall>p \<in> fst ` set (players r). p \<noteq> s \<longrightarrow> p \<in> set to)"
      by blast
  }
qed

theorem disconnect_teardown_witness:
  "\<exists>st1 st2.
     findMatch 49 (\<lambda>_. 0) 0 ''A'' init = Inr st1 \<and> consistent st1 \<and>
     waitingSocket st1 = Some ''A'' \<and> waitingSocket (disconnect ''A'' st1) = None \<and>
     (\<exists>st'. findMatch 49 (\<lambda>_. 0) 1 ''C'' (disconnect ''A'' st1) = Inr st' \<and>
            waitingSocket st' = Some ''C'') \<and>
     findMatch 49 (\<lambda>_. 0) 0 ''B'' st1 = Inr st2 \<and> consistent st2 \<and>
     map_of (rooms st2) (makeRoomId ''A'' ''B'' 0) \<noteq> None \<and>
     map_of (rooms (disconnect ''A'' st2)) (makeRoomId ''A'' ''B'' 0) = None \<and>
     (\<exists>earlier later to.
        outbox (disconnect ''A'' st2) = outbox st2 @ earlier @ (to, OpponentDisconnected) # later \<and>
        ''B'' \<in> set to)"
proof -
  define st1 where
    "st1 = init\<lparr>waitingSocket := Some ''A'', outbox := [([''A''], Status ''Waiting for an opponent...'')]\<rparr>"
  have a: "findMatch 49 (\<lambda>_. 0) 0 ''A'' init = Inr st1"
    by (simp add: findMatch_def emit_socket_def st1_def init_def)
  have c1: "consistent st1" using consistent_init a by (rule consistent_findMatch)
  have w1: "waitingSocket st1 = Some ''A''" by (simp add: st1_def)
  have ne: "''A'' \<noteq> ''B''" by simp
  have stk: "MAZE_LOGICAL * MAZE_LOGICAL \<le> 49" by (simp add: MAZE_LOGICAL_def)
  from findMatch_pairs[OF w1 ne stk, of "\<lambda>_. 0" 0] obtain mz a' b' k2 where
    b: "findMatch 49 (\<lambda>_. 0) 0 ''B'' st1 = Inr (paired st1 ''A'' ''B'' 0 mz a' b' k2)"
    by blast
  define st2 where "st2 = paired st1 ''A'' ''B'' 0 mz a' b' k2"
  have c2: "consistent st2" using c1 b unfolding st2_def by (rule consistent_findMatch)
  define r where "r = \<lparr>maze = mz, players = [(''A'', \<lparr>pid = ''A'', px = fst a', py = snd a', color = ''#34ff72'',
                            exitX = fst b', exitY = snd b'\<rparr>),
                  (''B'', \<lparr>pid = ''B'', px = fst b', py = snd b', color = ''#ff4d9e'',
                            exitX = fst a', exitY = snd a'\<rparr>)]\<rparr>"
  have r: "map_of (rooms st2) (makeRoomId ''A'' ''B'' 0) = Some r"
    unfolding st2_def paired_def Let_def r_def by (simp add: AList.update_conv')
  have pa: "map_of (players r) ''A'' \<noteq> None" and pb: "''B'' \<in> fst ` set (players r)"
    by (simp_all add: r_def)
  note t1 = disconnect_teardown[OF c1, of "''A''" 49 "\<lambda>_. 0" 1]
  note t2 = disconnect_teardown[OF c2, of "''A''" 49 "\<lambda>_. 0" 1]
  note t1a = t1[THEN conjunct1, THEN mp, OF w1]
  have p1: "waitingSocket (disconnect ''A'' st1) = None" using t1a by (rule conjunct1)
  have p2: "\<exists>st'. findMatch 49 (\<lambda>_. 0) 1 ''C'' (disconnect ''A'' st1) = Inr st' \<and>
            waitingSocket st' = Some ''C''"
    using t1a[THEN conjunct2, THEN spec, of "''C''"] .
  note t2a = t2[THEN conjunct2, THEN conjunct1, THEN spec, THEN spec, THEN mp, OF conjI[OF r pa]]
  have q1: "map_of (rooms (disconnect ''A'' st2)) (makeRoomId ''A'' ''B'' 0) = None"
    using t2a by (rule conjunct1)
  have "\<exists>earlier later to.
        outbox (disconnect ''A'' st2) = outbox st2 @ earlier @ (to, OpponentDisconnected) # later \<and>
        (\<forall>p \<in> fst ` set (players r). p \<noteq> ''A'' \<longrightarrow> p \<in> set to)"
    using t2a by (rule conjunct2)
  then obtain earlier later to where
    o: "outbox (disconnect ''A'' st2) = outbox st2 @ earlier @ (to, OpponentDisconnected) # later"
    and f: "\<forall>p \<in> fst ` set (players r). p \<noteq> ''A'' \<longrightarrow> p \<in> set to"
    by blast
  have ba: "''B'' \<noteq> ''A''" by simp
  have "''B'' \<in> set to" by (rule f[rule_format, OF pb ba])
  with o have q2: "\<exists>earlier later to.
        outbox (disconnect ''A'' st2) = outbox st2 @ earlier @ (to, OpponentDisconnected) # later \<and>
        ''B'' \<in> set to"
    by blast
  have r': "map_of (rooms st2) (makeRoomId ''A'' ''B'' 0) \<noteq> None" using r by simp
  have b': "findMatch 49 (\<lambda>_. 0) 0 ''B'' st1 = Inr st2" using b by (simp only: st2_def)
  show ?thesis
    apply (rule exI[of _ st1])
    apply (rule exI[of _ st2])
    apply (intro conjI)
    apply (fact a c1 w1 p1 p2 b' c2 r' q1 q2)+
    done
qed

lemma fold_teardown_rooms:
  "(\<forall>(t, r) \<in> set ts. map_of (rooms st) r = None) \<Longrightarrow>
   rooms (fold (\<lambda>(t, roomId) st'. teardown roomId st') ts st) = rooms st"
proof (induction ts arbitrary: st)
  case Nil
  show ?case by simp
next
  case (Cons p ts)
  obtain t r where p: "p = (t, r)" by (cases p)
  from Cons.prems have none: "map_of (rooms st) r = None"
    and rest: "\<forall>(t, r) \<in> set ts. map_of (rooms st) r = None"
    by (simp_all add: p)
  from none have same: "rooms (teardown r st) = rooms st"
    by (simp add: teardown_def map_of_eq_None_iff)
  have "rooms (fold (\<lambda>(t, roomId) st'. teardown roomId st') ts (teardown r st)) = rooms (teardown r st)"
    by (rule Cons.IH) (use rest same in simp)
  then show ?case by (simp add: p same)
qed


text \<open>
  Claim C8. Destroying a room that is not in the registry throws nothing and leaves the
  registry, the pending slot and the messages sent as they are; destroying a room twice is
  destroying it once; no destruction touches another room's entry; and a turn of the
  timers in which every due teardown is that of a room already removed (by a disconnect,
  say) returns normally with the registry unchanged.
\<close>

theorem teardown_twice:
  "(map_of (rooms st) roomId = None \<longrightarrow>
      rooms (teardown roomId st) = rooms st \<and>
      waitingSocket (teardown roomId st) = waitingSocket st \<and>
      outbox (teardown roomId st) = outbox st) \<and>
   teardown roomId (teardown roomId st) = teardown roomId st \<and>
   (\<forall>r. r \<noteq> roomId \<longrightarrow> map_of (rooms (teardown roomId st)) r = map_of (rooms st) r) \<and>
   ((\<forall>(t, r) \<in> set (timers st). t \<le> now \<longrightarrow> map_of (rooms st) r = None) \<longrightarrow>
      (\<exists>st'. handle stack rnd now Timers st = Inr st' \<and> rooms st' = rooms st))"
proof (intro conjI impI allI)
  assume "map_of (rooms st) roomId = None"
  then show "rooms (teardown roomId st) = rooms st"
    by (simp add: teardown_def map_of_eq_None_iff)
next
  show "waitingSocket (teardown roomId st) = waitingSocket st" by (simp add: teardown_def)
next
  show "outbox (teardown roomId st) = outbox st" by (simp add: teardown_def)
next
  show "teardown roomId (teardown roomId st) = teardown roomId st"
    by (simp add: teardown_def AList.delete_idem)
next
  fix r assume "r \<noteq> roomId"
  then show "map_of (rooms (teardown roomId st)) r = map_of (rooms st) r"
    by (simp add: teardown_def)
next
  assume a: "\<forall>(t, r) \<in> set (timers st). t \<le> now \<longrightarrow> map_of (rooms st) r = None"
  define st0 where "st0 = st\<lparr>timers := filter (\<lambda>(t, roomId). \<not> t \<le> now) (timers st)\<rparr>"
  have "\<forall>(t, r) \<in> set (filter (\<lambda>(t, roomId). t \<le> now) (timers st)). map_of (rooms st0) r = None"
    using a by (auto simp: st0_def)
  then have "rooms (run_timers now st) = rooms st0"
    unfolding run_timers_def st0_def[symmetric] by (rule fold_teardown_rooms)
  then show "\<exists>st'. handle stack rnd now Timers st = Inr st' \<and> rooms st' = rooms st"
    by (simp add: st0_def)
qed

theorem teardown_twice_witness:
  "map_of (rooms (init\<lparr>timers := [(4500, ''r-a-b-0'')]\<rparr>)) ''r-a-b-0'' = None \<and>
   rooms (teardown ''r-a-b-0'' (init\<lparr>timers := [(4500, ''r-a-b-0'')]\<rparr>)) = [] \<and>
   handle 49 (\<lambda>_. 0) 4500 Timers (init\<lparr>timers := [(4500, ''r-a-b-0'')]\<rparr>) = Inr (init\<lparr>timers := [], members := (\<lambda>r. [])\<rparr>)"
proof -
  have n: "map_of (rooms (init\<lparr>timers := [(4500, ''r-a-b-0'')]\<rparr>)) ''r-a-b-0'' = None"
    by (simp add: init_def)
  from teardown_twice[of "init\<lparr>timers := [(4500, ''r-a-b-0'')]\<rparr>" "''r-a-b-0''" 4500 49 "\<lambda>_. 0"] n
  have "rooms (teardown ''r-a-b-0'' (init\<lparr>timers := [(4500, ''r-a-b-0'')]\<rparr>)) = rooms (init\<lparr>timers := [(4500, ''r-a-b-0'')]\<rparr>)"
    by blast
  then have r: "rooms (teardown ''r-a-b-0'' (init\<lparr>timers := [(4500, ''r-a-b-0'')]\<rparr>)) = []"
    by (simp add: init_def)
  have h: "handle 49 (\<lambda>_. 0) 4500 Timers (init\<lparr>timers := [(4500, ''r-a-b-0'')]\<rparr>) = Inr (init\<lparr>timers := [], members := (\<lambda>r. [])\<rparr>)"
    by (simp add: run_timers_def teardown_def init_def fun_eq_iff)
  from n r h show ?thesis by blast
qed

subsection \<open>The payload of \<^verbatim>\<open>matchFound\<close>\<close>

text \<open>
  Claim C6. When socket \<open>s\<close> asks for a match while a different socket \<open>ws\<close> is pending (and the
  call stack admits the 49 nested calls of \<^verbatim>\<open>carve\<close>), the handler returns and emits one
  \<^verbatim>\<open>matchFound\<close> message to the members of the new room, \<open>ws\<close> and \<open>s\<close> among them. Its payload
  names the room id \<open>r-ws-s-now\<close>, a grid of 15 rows of 15 tiles with width 15 and height 15,
  and the two players with mirrored goals: the exit of \<open>ws\<close> is the spawn of \<open>s\<close> and the exit
  of \<open>s\<close> is the spawn of \<open>ws\<close>. Both spawns are empty tiles of that grid, and the room
  registered under the id holds the same maze and the same two players.
\<close>

theorem matchFound_payload:
  assumes "waitingSocket st = Some ws" and "ws \<noteq> s" and "MAZE_LOGICAL * MAZE_LOGICAL \<le> stack"
  shows "\<exists>st' to gr a1 a2 b1 b2.
           findMatch stack rnd now s st = Inr st' \<and>
           outbox st' = outbox st @
             [(to, MatchFound (makeRoomId ws s now) gr 15 15
                     [(ws, (a1, a2, ''#34ff72'', b1, b2)), (s, (b1, b2, ''#ff4d9e'', a1, a2))]),
              (to, Status started)] \<and>
           ws \<in> set to \<and> s \<in> set to \<and> rect gr (2 * MAZE_LOGICAL + 1) (2 * MAZE_LOGICAL + 1) \<and>
           rect gr 15 15 \<and> empty_at gr (a1, a2) \<and> empty_at gr (b1, b2) \<and>
           map_of (rooms st') (makeRoomId ws s now) =
             Some \<lparr>maze = \<lparr>grid = gr, width = 15, height = 15\<rparr>,
                   players =
                     [(ws, \<lparr>pid = ws, px = a1, py = a2, color = ''#34ff72'', exitX = b1, exitY = b2\<rparr>),
                      (s, \<lparr>pid = s, px = b1, py = b2, color = ''#ff4d9e'', exitX = a1, exitY = a2\<rparr>)]\<rparr>"
proof -
  from findMatch_pairs[OF assms, of rnd now] obtain mz a b k2 where
    g: "rect (grid mz) 15 15" "width mz = 15" "height mz = 15"
    and em: "empty_at (grid mz) a" "empty_at (grid mz) b"
    and run: "findMatch stack rnd now s st = Inr (paired st ws s now mz a b k2)"
    by blast
  define to where "to = joined s (joined ws (members st (makeRoomId ws s now)))"
  have ob: "outbox (paired st ws s now mz a b k2) = outbox st @
             [(to, MatchFound (makeRoomId ws s now) (grid mz) 15 15
                     [(ws, (fst a, snd a, ''#34ff72'', fst b, snd b)),
                      (s, (fst b, snd b, ''#ff4d9e'', fst a, snd a))]),
              (to, Status started)]"
    by (simp add: paired_def Let_def to_def g)
  have m: "ws \<in> set to" "s \<in> set to"
    by (auto simp: to_def joined_def)
  have mz: "mz = \<lparr>grid = grid mz, width = 15, height = 15\<rparr>"
    using g(2,3) by (cases mz) simp
  have reg: "map_of (rooms (paired st ws s now mz a b k2)) (makeRoomId ws s now) =
             Some \<lparr>maze = \<lparr>grid = grid mz, width = 15, height = 15\<rparr>,
                   players =
                     [(ws, \<lparr>pid = ws, px = fst a, py = snd a, color = ''#34ff72'',
                             exitX = fst b, exitY = snd b\<rparr>),
                      (s, \<lparr>pid = s, px = fst b, py = snd b, color = ''#ff4d9e'',
                            exitX = fst a, exitY = snd a\<rparr>)]\<rparr>"
    unfolding paired_def Let_def by (simp add: update_conv' mz[symmetric])
  have em': "empty_at (grid mz) (fst a, snd a)" "empty_at (grid mz) (fst b, snd b)"
    using em by simp_all
  have r: "rect (grid mz) (2 * MAZE_LOGICAL + 1) (2 * MAZE_LOGICAL + 1)"
    using g(1) by (simp add: MAZE_LOGICAL_def)
  show ?thesis
    apply (rule exI[of _ "paired st ws s now mz a b k2"])
    apply (rule exI[of _ to])
    apply (rule exI[of _ "grid mz"])
    apply (rule exI[of _ "fst a"])
    apply (rule exI[of _ "snd a"])
    apply (rule exI[of _ "fst b"])
    apply (rule exI[of _ "snd b"])
    apply (intro conjI)
    apply (fact run ob m r g em' reg)+
    done
qed

theorem matchFound_payload_witness:
  "\<exists>st' to gr a1 a2 b1 b2.
     findMatch 49 (\<lambda>_. 0) 5 ''B''
       (init\<lparr>waitingSocket := Some ''A'', outbox := [([''A''], Status ''Waiting for an opponent...'')]\<rparr>) = Inr st' \<and>
     outbox st' =
       [([''A''], Status ''Waiting for an opponent...''),
        (to, MatchFound ''r-A-B-5'' gr 15 15
               [(''A'', (a1, a2, ''#34ff72'', b1, b2)), (''B'', (b1, b2, ''#ff4d9e'', a1, a2))]),
        (to, Status started)] \<and>
     ''A'' \<in> set to \<and> ''B'' \<in> set to \<and> rect gr 15 15"
proof -
  define st1 where
    "st1 = init\<lparr>waitingSocket := Some ''A'', outbox := [([''A''], Status ''Waiting for an opponent...'')]\<rparr>"
  have w1: "waitingSocket st1 = Some ''A''" by (simp add: st1_def)
  have ne: "''A'' \<noteq> ''B''" by simp
  have stk: "MAZE_LOGICAL * MAZE_LOGICAL \<le> 49" by (simp add: MAZE_LOGICAL_def)
  have rid: "makeRoomId ''A'' ''B'' 5 = ''r-A-B-5''" by (simp add: makeRoomId_def)
  have ob: "outbox st1 = [([''A''], Status ''Waiting for an opponent...'')]" by (simp add: st1_def)
  from matchFound_payload[OF w1 ne stk, of "\<lambda>_. 0" 5] obtain st' to gr a1 a2 b1 b2 where
    f: "findMatch 49 (\<lambda>_. 0) 5 ''B'' st1 = Inr st'"
       "outbox st' = outbox st1 @
             [(to, MatchFound (makeRoomId ''A'' ''B'' 5) gr 15 15
                     [(''A'', (a1, a2, ''#34ff72'', b1, b2)), (''B'', (b1, b2, ''#ff4d9e'', a1, a2))]),
              (to, Status started)]"
       "''A'' \<in> set to" "''B'' \<in> set to" "rect gr 15 15"
    by blast
  have o: "outbox st' =
       [([''A''], Status ''Waiting for an opponent...''),
        (to, MatchFound ''r-A-B-5'' gr 15 15
               [(''A'', (a1, a2, ''#34ff72'', b1, b2)), (''B'', (b1, b2, ''#ff4d9e'', a1, a2))]),
        (to, Status started)]"
    unfolding f(2) rid ob by simp
  show ?thesis
    unfolding st1_def[symmetric]
    apply (rule exI[of _ st'])
    apply (rule exI[of _ to])
    apply (rule exI[of _ gr])
    apply (rule exI[of _ a1])
    apply (rule exI[of _ a2])
    apply (rule exI[of _ b1])
    apply (rule exI[of _ b2])
    apply (intro conjI)
    apply (fact f o)+
    done
qed

subsection \<open>A game played to its end\<close>

text \<open>A game played to its end: the random draws, the maze they produce and the room.\<close>

definition example_rnd :: "nat \<Rightarrow> nat" where
  "example_rnd k = (if k < 147 then 0 else if k = 148 then 6 else if k = 150 then 13 else 1)"

definition example_grid :: grid where
  "example_grid =
     [[1, 1, 1, 1, 1, 1, 1, 1, 1, 1, 1, 1, 1, 1, 1],
      [1, 0, 1, 0, 0, 0, 1, 0, 0, 0, 1, 0, 0, 0, 1],
      [1, 0, 1, 0, 1, 0, 1, 0, 1, 0, 1, 0, 1, 0, 1],
      [1, 0, 1, 0, 1, 0, 1, 0, 1, 0, 1, 0, 1, 0, 1],
      [1, 0, 1, 0, 1, 0, 1, 0, 1, 0, 1, 0, 1, 0, 1],
      [1, 0, 1, 0, 1, 0, 1, 0, 1, 0, 1, 0, 1, 0, 1],
      [1, 0, 1, 0, 1, 0, 1, 0, 1, 0, 1, 0, 1, 0, 1],
      [1, 0, 1, 0, 1, 0, 1, 0, 1, 0, 1, 0, 1, 0, 1],
      [1, 0, 1, 0, 1, 0, 1, 0, 1, 0, 1, 0, 1, 0, 1],
      [1, 0, 1, 0, 1, 0, 1, 0, 1, 0, 1, 0, 1, 0, 1],
      [1, 0, 1, 0, 1, 0, 1, 0, 1, 0, 1, 0, 1, 0, 1],
      [1, 0, 1, 0, 1, 0, 1, 0, 1, 0, 1, 0, 1, 0, 1],
      [1, 0, 1, 0, 1, 0, 1, 0, 1, 0, 1, 0, 1, 0, 1],
      [1, 0, 0, 0, 1, 0, 0, 0, 1, 0, 0, 0, 1, 0, 1],
      [1, 1, 1, 1, 1, 1, 1, 1, 1, 1, 1, 1, 1, 1, 1]]"

definition example_maze :: maze where
  "example_maze = \<lparr>grid = example_grid, width = 15, height = 15\<rparr>"

text \<open>The room of \<open>A\<close> and \<open>B\<close> with \<open>A\<close> at \<open>(1, y)\<close> and \<open>B\<close> at \<open>(1, y')\<close>.\<close>

definition example_room :: "int \<Rightarrow> int \<Rightarrow> room" where
  "example_room y y' =
     \<lparr>maze = example_maze,
      players =
        [(''A'', \<lparr>pid = ''A'', px = 1, py = y, color = ''#34ff72'', exitX = 1, exitY = 13\<rparr>),
         (''B'', \<lparr>pid = ''B'', px = 1, py = y', color = ''#ff4d9e'', exitX = 1, exitY = 6\<rparr>)]\<rparr>"

lemma example_generate: "generateMaze 49 example_rnd 0 MAZE_LOGICAL = Inr (example_maze, 147)"
  unfolding example_rnd_def[abs_def] example_maze_def example_grid_def MAZE_LOGICAL_def
  by code_simp

lemma example_spawns: "placeSpawns example_rnd 147 example_maze = Inr ((1, 6), (1, 13), 0, 151)"
proof -
  have p1: "pickRandomCell example_rnd 147 example_grid (leftTopTest 15 15) 500 = Inr ((1, 6), 149)"
    unfolding example_rnd_def[abs_def] example_grid_def by code_simp
  have p2: "pickRandomCell example_rnd 149 example_grid (rightBottomTest 15 15) 500 = Inr ((1, 13), 151)"
    unfolding example_rnd_def[abs_def] example_grid_def by code_simp
  have far: "\<not> distance (1, 6) (1, 13) < minDist 15 15"
    by (simp add: distance_less_minDist_iff)
  have rs: "retry_spawns example_rnd example_grid 15 15 0 (1, 6) (1, 13) 151 = Inr ((1, 6), (1, 13), 0, 151)"
    by (subst retry_spawns.simps) (simp add: far)
  show ?thesis
    unfolding placeSpawns_def Let_def example_maze_def
    by (simp add: p1 p2 rs far)
qed

lemma example_column:
  assumes "1 \<le> y" "y \<le> 13"
  shows "at2 example_grid y 1 = Inr (Some TILE_EMPTY)"
proof -
  from assms have "y = 1 \<or> y = 2 \<or> y = 3 \<or> y = 4 \<or> y = 5 \<or> y = 6 \<or> y = 7 \<or> y = 8 \<or>
      y = 9 \<or> y = 10 \<or> y = 11 \<or> y = 12 \<or> y = 13"
    by arith
  then show ?thesis
    by (elim disjE) (simp_all add: at2_def example_grid_def TILE_EMPTY_def)
qed

text \<open>The server with that one room, the timers \<open>ts\<close> and the messages \<open>sent\<close>.\<close>

definition example_server :: "int \<Rightarrow> int \<Rightarrow> (nat \<times> rid) list \<Rightarrow> (sid list \<times> message) list \<Rightarrow> server" where
  "example_server y y' ts sent =
     \<lparr>waitingSocket = None, rooms = [(''r-A-B-0'', example_room y y')],
      members = (\<lambda>roomId. [])(''r-A-B-0'' := [''A'', ''B'']), timers = ts, calls = 151,
      outbox = sent\<rparr>"

definition example_update :: "int \<Rightarrow> int \<Rightarrow> sid list \<times> message" where
  "example_update y y' =
     ([''A'', ''B''],
      State [(''A'', (1, y, ''#34ff72'', 1, 13)), (''B'', (1, y', ''#ff4d9e'', 1, 6))])"

definition example_sent :: "(sid list \<times> message) list" where
  "example_sent =
     [([''A''], Status ''Waiting for an opponent...''),
      ([''A'', ''B''],
       MatchFound ''r-A-B-0'' example_grid 15 15
         [(''A'', (1, 6, ''#34ff72'', 1, 13)), (''B'', (1, 13, ''#ff4d9e'', 1, 6))]),
      ([''A'', ''B''], Status started)]"

lemma example_wait:
  "findMatch 49 example_rnd 0 ''A'' init =
     Inr (init\<lparr>waitingSocket := Some ''A'',
               outbox := [([''A''], Status ''Waiting for an opponent...'')]\<rparr>)"
  by (simp add: findMatch_def init_def emit_socket_def)

lemma example_match:
  "findMatch 49 example_rnd 0 ''B''
     (init\<lparr>waitingSocket := Some ''A'',
           outbox := [([''A''], Status ''Waiting for an opponent...'')]\<rparr>) =
   Inr (example_server 6 13 [] example_sent)"
proof -
  define st1 where
    "st1 = init\<lparr>waitingSocket := Some ''A'',
               outbox := [([''A''], Status ''Waiting for an opponent...'')]\<rparr>"
  have w: "waitingSocket st1 = Some ''A''" and ne: "''A'' \<noteq> ''B''"
    and c: "calls st1 = 0"
    by (simp_all add: st1_def init_def)
  have g: "generateMaze 49 example_rnd (calls st1) MAZE_LOGICAL = Inr (example_maze, 147)"
    unfolding c by (rule example_generate)
  have rid: "makeRoomId ''A'' ''B'' 0 = ''r-A-B-0''" by (simp add: makeRoomId_def)
  have "paired st1 ''A'' ''B'' 0 example_maze (1, 6) (1, 13) 151 = example_server 6 13 [] example_sent"
    unfolding paired_def Let_def rid
    by (simp add: st1_def init_def joined_def example_server_def example_sent_def example_room_def
        example_maze_def)
  with findMatch_paired[OF w ne g example_spawns, of 0] show ?thesis
    unfolding st1_def by simp
qed

lemma example_lookup:
  "map_of (rooms (example_server y y' ts sent)) ''r-A-B-0'' = Some (example_room y y')"
  "map_of (players (example_room y y')) ''A'' =
     Some \<lparr>pid = ''A'', px = 1, py = y, color = ''#34ff72'', exitX = 1, exitY = 13\<rparr>"
  "map_of (players (example_room y y')) ''B'' =
     Some \<lparr>pid = ''B'', px = 1, py = y', color = ''#ff4d9e'', exitX = 1, exitY = 6\<rparr>"
  by (simp_all add: example_server_def example_room_def)

lemma example_down:
  assumes "0 \<le> y" "y < 13"
  shows "move now ''A'' ''r-A-B-0'' ''down'' (example_server y y' ts sent) =
           Inr (if y + 1 = 13
                then example_server 13 y' (ts @ [(now + 4500, ''r-A-B-0'')])
                       (sent @ [example_update 13 y', ([''A'', ''B''], GameOver ''A'' ''#34ff72''),
                                ([''A'', ''B''], RevealMaze example_grid)])
                else example_server (y + 1) y' ts (sent @ [example_update (y + 1) y']))"
proof -
  define p where "p = \<lparr>pid = ''A'', px = 1, py = y, color = ''#34ff72'', exitX = 1, exitY = 13\<rparr>"
  from assms have col: "at2 example_grid (y + 1) 1 = Inr (Some TILE_EMPTY)"
    by (intro example_column) simp_all
  have l: "legal (example_server y y' ts sent) ''A'' ''r-A-B-0'' ''down'' (example_room y y') p 1 (y + 1)"
    unfolding legal_def example_lookup
    using assms col
    by (simp add: p_def deltas_def example_room_def example_maze_def TILE_EMPTY_def TILE_WALL_def)
  have st: "stepped (example_server y y' ts sent) ''A'' ''r-A-B-0'' (example_room y y') p 1 (y + 1) =
              example_server (y + 1) y' ts (sent @ [example_update (y + 1) y'])"
    by (simp add: stepped_def example_server_def example_room_def p_def view_def example_update_def)
  have wn: "won (example_server 13 y' ts (sent @ [example_update 13 y'])) ''A'' ''r-A-B-0''
               (example_room a b) p now =
            example_server 13 y' (ts @ [(now + 4500, ''r-A-B-0'')])
                       (sent @ [example_update 13 y', ([''A'', ''B''], GameOver ''A'' ''#34ff72''),
                                ([''A'', ''B''], RevealMaze example_grid)])" for a b
    by (simp add: won_def example_server_def example_room_def p_def example_maze_def)
  have ex: "exitX p = 1" "exitY p = 13" by (simp_all add: p_def)
  show ?thesis
    unfolding move_legal[OF l] st ex
    by (simp add: wn)
qed

lemma example_up:
  assumes "1 < y'" "y' \<le> 13"
  shows "move now ''B'' ''r-A-B-0'' ''up'' (example_server y y' ts sent) =
           Inr (if y' - 1 = 6
                then example_server y 6 (ts @ [(now + 4500, ''r-A-B-0'')])
                       (sent @ [example_update y 6, ([''A'', ''B''], GameOver ''B'' ''#ff4d9e''),
                                ([''A'', ''B''], RevealMaze example_grid)])
                else example_server y (y' - 1) ts (sent @ [example_update y (y' - 1)]))"
proof -
  define p where "p = \<lparr>pid = ''B'', px = 1, py = y', color = ''#ff4d9e'', exitX = 1, exitY = 6\<rparr>"
  from assms have col: "at2 example_grid (y' - 1) 1 = Inr (Some TILE_EMPTY)"
    by (intro example_column) simp_all
  have l: "legal (example_server y y' ts sent) ''B'' ''r-A-B-0'' ''up'' (example_room y y') p 1 (y' - 1)"
    unfolding legal_def example_lookup
    using assms col
    by (simp add: p_def deltas_def example_room_def example_maze_def TILE_EMPTY_def TILE_WALL_def)
  have st: "stepped (example_server y y' ts sent) ''B'' ''r-A-B-0'' (example_room y y') p 1 (y' - 1) =
              example_server y (y' - 1) ts (sent @ [example_update y (y' - 1)])"
    by (simp add: stepped_def example_server_def example_room_def p_def view_def example_update_def)
  have wn: "won (example_server y 6 ts (sent @ [example_update y 6])) ''B'' ''r-A-B-0''
               (example_room a b) p now =
            example_server y 6 (ts @ [(now + 4500, ''r-A-B-0'')])
                       (sent @ [example_update y 6, ([''A'', ''B''], GameOver ''B'' ''#ff4d9e''),
                                ([''A'', ''B''], RevealMaze example_grid)])" for a b
    by (simp add: won_def example_server_def example_room_def p_def example_maze_def)
  have ex: "exitX p = 1" "exitY p = 6" by (simp_all add: p_def)
  show ?thesis
    unfolding move_legal[OF l] st ex
    by (simp add: wn)
qed

text \<open>The messages sent by the time \<open>A\<close> has walked from its spawn to its exit and won.\<close>

definition example_won_sent :: "(sid list \<times> message) list" where
  "example_won_sent =
     example_sent @
     [example_update 7 13, example_update 8 13, example_update 9 13, example_update 10 13,
      example_update 11 13, example_update 12 13, example_update 13 13,
      ([''A'', ''B''], GameOver ''A'' ''#34ff72''), ([''A'', ''B''], RevealMaze example_grid)]"

lemma example_won:
  "run 49 example_rnd
     [(0, FindMatch ''A''), (0, FindMatch ''B''),
      (1, Move ''A'' ''r-A-B-0'' ''down''), (2, Move ''A'' ''r-A-B-0'' ''down''),
      (3, Move ''A'' ''r-A-B-0'' ''down''), (4, Move ''A'' ''r-A-B-0'' ''down''),
      (5, Move ''A'' ''r-A-B-0'' ''down''), (6, Move ''A'' ''r-A-B-0'' ''down''),
      (7, Move ''A'' ''r-A-B-0'' ''down'')] init =
   Inr (example_server 13 13 [(4507, ''r-A-B-0'')] example_won_sent)"
  by (simp add: example_wait example_match example_down example_won_sent_def)

subsection \<open>Winning, and moving after a win\<close>

lemma teardown_lookup:
  "map_of (rooms (teardown r st)) r' = (if r' = r then None else map_of (rooms st) r')"
  by (auto simp: teardown_def delete_conv)

lemma fold_teardown_lookup:
  "map_of (rooms (fold (\<lambda>(t, roomId) st'. teardown roomId st') ts st)) r =
     (if r \<in> snd ` set ts then None else map_of (rooms st) r)"
proof (induction ts arbitrary: st)
  case Nil
  show ?case by simp
next
  case (Cons a ts)
  obtain t r' where a: "a = (t, r')" by (cases a)
  show ?case
    unfolding a by (simp add: Cons.IH teardown_lookup)
qed

lemma run_timers_lookup:
  "map_of (rooms (run_timers now st)) r =
     (if r \<in> snd ` set (filter (\<lambda>(t, roomId). t \<le> now) (timers st)) then None
      else map_of (rooms st) r)"
  unfolding run_timers_def fold_teardown_lookup by simp

text \<open>
  Claim C2, as amended. A legal move of socket \<open>s\<close> onto its exit returns, and emits the state
  broadcast, then one \<^verbatim>\<open>gameOver\<close> naming \<open>s\<close> and its colour, then one \<^verbatim>\<open>revealMaze\<close> with
  the whole grid, all to the room, and sets one timer due 4500 ms later. The room stays in
  the registry, with the mover on its exit, and nothing in it records the win. The timers
  remove the room when they run at \<open>now + 4500\<close> or later, and, when no timer was pending
  for this room before, not when they run earlier. Until then a legal move in the room has
  the effect it has before a win: the position changes and the state is broadcast (and a
  move onto an exit announces a win again).
\<close>

theorem winning_move:
  assumes "legal st s roomId dir r p (exitX p) (exitY p)"
  shows "\<exists>st' r'. move now s roomId dir st = Inr st' \<and>
           r' = r\<lparr>players := AList.update s (p\<lparr>px := exitX p, py := exitY p\<rparr>) (players r)\<rparr> \<and>
           outbox st' = outbox st @
             [(members st roomId, State (map (\<lambda>(i, q). (i, view q)) (players r'))),
              (members st roomId, GameOver s (color p)),
              (members st roomId, RevealMaze (grid (maze r)))] \<and>
           timers st' = timers st @ [(now + 4500, roomId)] \<and>
           rooms st' = AList.update roomId r' (rooms st) \<and>
           map_of (rooms st') roomId = Some r' \<and>
           (\<forall>t \<ge> now + 4500. map_of (rooms (run_timers t st')) roomId = None) \<and>
           (roomId \<notin> snd ` set (timers st) \<longrightarrow>
              (\<forall>t < now + 4500. map_of (rooms (run_timers t st')) roomId = Some r')) \<and>
           (\<forall>now' s' dir' q nx ny. legal st' s' roomId dir' r' q nx ny \<longrightarrow>
              move now' s' roomId dir' st' =
                Inr (if nx = exitX q \<and> ny = exitY q
                     then won (stepped st' s' roomId r' q nx ny) s' roomId r' q now'
                     else stepped st' s' roomId r' q nx ny))"
proof -
  define r' where
    "r' = r\<lparr>players := AList.update s (p\<lparr>px := exitX p, py := exitY p\<rparr>) (players r)\<rparr>"
  define st' where "st' = won (stepped st s roomId r p (exitX p) (exitY p)) s roomId r p now"
  from move_legal[OF assms, of now] have run: "move now s roomId dir st = Inr st'"
    by (simp add: st'_def)
  have ob: "outbox st' = outbox st @
             [(members st roomId, State (map (\<lambda>(i, q). (i, view q)) (players r'))),
              (members st roomId, GameOver s (color p)),
              (members st roomId, RevealMaze (grid (maze r)))]"
    by (simp add: st'_def won_def stepped_def r'_def)
  have tm: "timers st' = timers st @ [(now + 4500, roomId)]"
    by (simp add: st'_def won_def stepped_def)
  have rm: "rooms st' = AList.update roomId r' (rooms st)"
    by (simp add: st'_def won_def stepped_def r'_def)
  have lk: "map_of (rooms st') roomId = Some r'"
    unfolding rm by (simp add: update_conv')
  have late: "\<forall>t \<ge> now + 4500. map_of (rooms (run_timers t st')) roomId = None"
  proof (intro allI impI)
    fix t assume "now + 4500 \<le> t"
    then have "(now + 4500, roomId) \<in> set (filter (\<lambda>(t', roomId). t' \<le> t) (timers st'))"
      unfolding tm by simp
    then have "roomId \<in> snd ` set (filter (\<lambda>(t', roomId). t' \<le> t) (timers st'))"
      by (rule image_eqI[rotated]) simp
    then show "map_of (rooms (run_timers t st')) roomId = None"
      unfolding run_timers_lookup by simp
  qed
  have early: "roomId \<notin> snd ` set (timers st) \<longrightarrow>
              (\<forall>t < now + 4500. map_of (rooms (run_timers t st')) roomId = Some r')"
  proof (intro allI impI)
    fix t assume no: "roomId \<notin> snd ` set (timers st)" and "t < now + 4500"
    then have "filter (\<lambda>(t', roomId). t' \<le> t) (timers st') =
               filter (\<lambda>(t', roomId). t' \<le> t) (timers st)"
      unfolding tm by simp
    with no have "roomId \<notin> snd ` set (filter (\<lambda>(t', roomId). t' \<le> t) (timers st'))"
      by auto
    then show "map_of (rooms (run_timers t st')) roomId = Some r'"
      unfolding run_timers_lookup by (simp add: lk)
  qed
  have again: "\<forall>now' s' dir' q nx ny. legal st' s' roomId dir' r' q nx ny \<longrightarrow>
              move now' s' roomId dir' st' =
                Inr (if nx = exitX q \<and> ny = exitY q
                     then won (stepped st' s' roomId r' q nx ny) s' roomId r' q now'
                     else stepped st' s' roomId r' q nx ny)"
    by (intro allI impI) (rule move_legal)
  show ?thesis
    apply (rule exI[of _ st'])
    apply (rule exI[of _ r'])
    apply (intro conjI)
    apply (fact run r'_def ob tm rm lk late early again)+
    done
qed

theorem winning_move_witness:
  "legal (example_server 12 13 [] []) ''A'' ''r-A-B-0'' ''down'' (example_room 12 13)
     \<lparr>pid = ''A'', px = 1, py = 12, color = ''#34ff72'', exitX = 1, exitY = 13\<rparr> 1 13 \<and>
   move 7 ''A'' ''r-A-B-0'' ''down'' (example_server 12 13 [] []) =
     Inr (example_server 13 13 [(4507, ''r-A-B-0'')]
            [example_update 13 13, ([''A'', ''B''], GameOver ''A'' ''#34ff72''),
             ([''A'', ''B''], RevealMaze example_grid)]) \<and>
   map_of (rooms (run_timers 4506 (example_server 13 13 [(4507, ''r-A-B-0'')]
            [example_update 13 13, ([''A'', ''B''], GameOver ''A'' ''#34ff72''),
             ([''A'', ''B''], RevealMaze example_grid)]))) ''r-A-B-0'' = Some (example_room 13 13) \<and>
   map_of (rooms (run_timers 4507 (example_server 13 13 [(4507, ''r-A-B-0'')]
            [example_update 13 13, ([''A'', ''B''], GameOver ''A'' ''#34ff72''),
             ([''A'', ''B''], RevealMaze example_grid)]))) ''r-A-B-0'' = None"
proof -
  define p where "p = \<lparr>pid = ''A'', px = 1, py = 12, color = ''#34ff72'', exitX = 1, exitY = 13\<rparr>"
  define st where "st = example_server 12 13 [] []"
  define fin where "fin = example_server 13 13 [(4507, ''r-A-B-0'')]
            [example_update 13 13, ([''A'', ''B''], GameOver ''A'' ''#34ff72''),
             ([''A'', ''B''], RevealMaze example_grid)]"
  have col: "at2 example_grid 13 1 = Inr (Some TILE_EMPTY)"
    by (rule example_column) simp_all
  have l: "legal st ''A'' ''r-A-B-0'' ''down'' (example_room 12 13) p 1 13"
    unfolding legal_def st_def example_lookup
    using col
    by (simp add: p_def deltas_def example_room_def example_maze_def TILE_EMPTY_def TILE_WALL_def)
  have ex: "exitX p = 1" "exitY p = 13" by (simp_all add: p_def)
  have l': "legal st ''A'' ''r-A-B-0'' ''down'' (example_room 12 13) p (exitX p) (exitY p)"
    unfolding ex by (rule l)
  have mv: "move 7 ''A'' ''r-A-B-0'' ''down'' st = Inr fin"
    unfolding st_def fin_def by (simp add: example_down)
  have nt: "''r-A-B-0'' \<notin> snd ` set (timers st)"
    by (simp add: st_def example_server_def)
  from winning_move[OF l', of 7] obtain st' r' where
    w: "move 7 ''A'' ''r-A-B-0'' ''down'' st = Inr st'"
       "r' = (example_room 12 13)\<lparr>players := AList.update ''A'' (p\<lparr>px := exitX p, py := exitY p\<rparr>)
                                              (players (example_room 12 13))\<rparr>"
       "\<forall>t \<ge> 7 + 4500. map_of (rooms (run_timers t st')) ''r-A-B-0'' = None"
       "''r-A-B-0'' \<notin> snd ` set (timers st) \<longrightarrow>
          (\<forall>t < 7 + 4500. map_of (rooms (run_timers t st')) ''r-A-B-0'' = Some r')"
    by blast
  from w(1) mv have e: "st' = fin" by simp
  from w(2) have r': "r' = example_room 13 13"
    by (simp add: example_room_def p_def)
  from w(3) have late: "map_of (rooms (run_timers 4507 fin)) ''r-A-B-0'' = None"
    unfolding e by simp
  from w(4) nt have "\<forall>t < 7 + 4500. map_of (rooms (run_timers t fin)) ''r-A-B-0'' = Some (example_room 13 13)"
    unfolding e r' by (rule mp)
  then have early: "map_of (rooms (run_timers 4506 fin)) ''r-A-B-0'' = Some (example_room 13 13)"
    by simp
  show ?thesis
    unfolding p_def[symmetric] st_def[symmetric] fin_def[symmetric]
    apply (intro conjI)
    apply (fact l mv early late)+
    done
qed

text \<open>
  A game in which \<open>A\<close> walks from its spawn \<open>(1, 6)\<close> down to its exit \<open>(1, 13)\<close> and wins at
  time 7. One millisecond later \<open>B\<close> moves up: the handler accepts the move, \<open>B\<close> is on
  \<open>(1, 12)\<close> and the new state is broadcast to the room.
\<close>

theorem move_after_win:
  "run 49 example_rnd
     [(0, FindMatch ''A''), (0, FindMatch ''B''),
      (1, Move ''A'' ''r-A-B-0'' ''down''), (2, Move ''A'' ''r-A-B-0'' ''down''),
      (3, Move ''A'' ''r-A-B-0'' ''down''), (4, Move ''A'' ''r-A-B-0'' ''down''),
      (5, Move ''A'' ''r-A-B-0'' ''down''), (6, Move ''A'' ''r-A-B-0'' ''down''),
      (7, Move ''A'' ''r-A-B-0'' ''down'')] init =
     Inr (example_server 13 13 [(4507, ''r-A-B-0'')] example_won_sent) \<and>
   ([''A'', ''B''], GameOver ''A'' ''#34ff72'') \<in> set example_won_sent \<and>
   move 8 ''B'' ''r-A-B-0'' ''up'' (example_server 13 13 [(4507, ''r-A-B-0'')] example_won_sent) =
     Inr (example_server 13 12 [(4507, ''r-A-B-0'')] (example_won_sent @ [example_update 13 12])) \<and>
   map_of (rooms (example_server 13 13 [(4507, ''r-A-B-0'')] example_won_sent)) ''r-A-B-0'' =
     Some (example_room 13 13) \<and>
   map_of (rooms (example_server 13 12 [(4507, ''r-A-B-0'')] (example_won_sent @ [example_update 13 12])))
     ''r-A-B-0'' = Some (example_room 13 12) \<and>
   example_room 13 12 \<noteq> example_room 13 13"
proof -
  have mv: "move 8 ''B'' ''r-A-B-0'' ''up'' (example_server 13 13 [(4507, ''r-A-B-0'')] example_won_sent) =
     Inr (example_server 13 12 [(4507, ''r-A-B-0'')] (example_won_sent @ [example_update 13 12]))"
    by (simp add: example_up)
  have go: "([''A'', ''B''], GameOver ''A'' ''#34ff72'') \<in> set example_won_sent"
    by (simp add: example_won_sent_def)
  have ne: "example_room 13 12 \<noteq> example_room 13 13"
    by (simp add: example_room_def)
  show ?thesis
    apply (intro conjI)
    apply (fact example_won go mv example_lookup(1) ne)+
    done
qed

subsection \<open>Names inherited from \<^verbatim>\<open>Object.prototype\<close>\<close>

text \<open>
  Claim C3 fails for a name that every JavaScript object inherits, such as
  \<^verbatim>\<open>constructor\<close>: it is none of the four directions and no room of the registry, and the
  handler does not return. As a direction sent by a player of a room it makes the handler
  throw \<^verbatim>\<open>TypeError\<close> at \<^verbatim>\<open>r.maze.grid[ny][nx]\<close>, and as a room id that the registry does not
  hold it makes the handler throw at \<^verbatim>\<open>r.players[socket.id]\<close>.
\<close>

theorem move_inherited_name:
  assumes "name \<in> set object_prototype_keys"
  shows "name \<notin> {''up'', ''down'', ''left'', ''right''} \<and>
         (map_of (rooms st) name = None \<longrightarrow> move now s name dir st = Inl TypeError) \<and>
         (\<forall>r p. map_of (rooms st) roomId = Some r \<and> map_of (players r) s = Some p \<longrightarrow>
                move now s roomId name st = Inl TypeError)"
proof -
  from assms have four: "name \<notin> {''up'', ''down'', ''left'', ''right''}"
    by (auto simp: object_prototype_keys_def)
  with assms have d: "deltas name = Inherited"
    by (simp add: deltas_def)
  from assms have a: "map_of (rooms st) name = None \<longrightarrow> move now s name dir st = Inl TypeError"
    by (simp add: move_def)
  from d have b: "\<forall>r p. map_of (rooms st) roomId = Some r \<and> map_of (players r) s = Some p \<longrightarrow>
                move now s roomId name st = Inl TypeError"
    by (simp add: move_def)
  from four a b show ?thesis by (intro conjI)
qed

theorem move_inherited_name_witness:
  "''constructor'' \<in> set object_prototype_keys \<and>
   run 49 example_rnd [(0, FindMatch ''A''), (0, FindMatch ''B'')] init =
     Inr (example_server 6 13 [] example_sent) \<and>
   move 1 ''A'' ''r-A-B-0'' ''constructor'' (example_server 6 13 [] example_sent) = Inl TypeError \<and>
   move 1 ''A'' ''constructor'' ''up'' (example_server 6 13 [] example_sent) = Inl TypeError \<and>
   run 49 example_rnd
     [(0, FindMatch ''A''), (0, FindMatch ''B''), (1, Move ''A'' ''r-A-B-0'' ''constructor'')] init =
     Inl TypeError"
proof -
  define st where "st = example_server 6 13 [] example_sent"
  have k: "''constructor'' \<in> set object_prototype_keys"
    by (simp add: object_prototype_keys_def)
  have start: "run 49 example_rnd [(0, FindMatch ''A''), (0, FindMatch ''B'')] init = Inr st"
    by (simp add: example_wait example_match st_def)
  have none: "map_of (rooms st) ''constructor'' = None"
    by (simp add: st_def example_server_def)
  have rm: "map_of (rooms st) ''r-A-B-0'' = Some (example_room 6 13)"
    unfolding st_def by (rule example_lookup)
  note t = move_inherited_name[OF k, of st 1 "''A''" "''up''" "''r-A-B-0''"]
  from t none have m2: "move 1 ''A'' ''constructor'' ''up'' st = Inl TypeError"
    by (rule conjunct2[THEN conjunct1, THEN mp])
  from t have b: "\<forall>r p. map_of (rooms st) ''r-A-B-0'' = Some r \<and> map_of (players r) ''A'' = Some p \<longrightarrow>
                move 1 ''A'' ''r-A-B-0'' ''constructor'' st = Inl TypeError"
    by (rule conjunct2[THEN conjunct2])
  have m1: "move 1 ''A'' ''r-A-B-0'' ''constructor'' st = Inl TypeError"
    by (rule b[rule_format, OF conjI, OF rm example_lookup(2)])
  have all: "run 49 example_rnd
     [(0, FindMatch ''A''), (0, FindMatch ''B''), (1, Move ''A'' ''r-A-B-0'' ''constructor'')] init =
     Inl TypeError"
    using m1 by (simp add: example_wait example_match st_def)
  show ?thesis
    unfolding st_def[symmetric]
    apply (intro conjI)
    apply (fact k start m1 m2 all)+
    done
qed

end
